theory Spec2Isabelle
  imports Main "HOL-Library.Word"
begin

unbundle bit_operations_syntax

section \<open>The console of xv6 (console.c)\<close>

text \<open>
  The C types of console.c: \<open>char\<close> is a byte (\<open>8 word\<close>), \<open>int\<close> and \<open>uint\<close> are 32-bit
  words; \<open>+\<close> and \<open>-\<close> wrap, \<open><\<close> on words is the unsigned comparison, \<open><s\<close> the signed one.
  A C string is the list of its bytes: it ends at its first NUL byte, or at the end of the list.
\<close>

type_synonym cchar = "8 word"
type_synonym cint = "32 word"

text \<open>A character constant of the source, as the \<open>int\<close> it is in C.\<close>

definition chr :: "char \<Rightarrow> cint" where
  "chr x = of_char x"

text \<open>A string literal of the source, as bytes.\<close>

definition cstr :: "string \<Rightarrow> cchar list" where
  "cstr xs = map of_char xs"

text \<open>
  Reading a \<open>char\<close> into an \<open>int\<close> (\<open>char\<close> is taken as signed, so the byte is sign-extended)
  and storing an \<open>int\<close> into a \<open>char\<close> (the low eight bits).
\<close>

definition char_to_int :: "cchar \<Rightarrow> cint" where
  "char_to_int b = scast b"

definition int_to_char :: "cint \<Rightarrow> cchar" where
  "int_to_char c = ucast c"

subsection \<open>Constants\<close>

definition BACKSPACE :: cint where
  "BACKSPACE = 0x100"

definition C :: "char \<Rightarrow> cint" where
  "C x = chr x - chr CHR ''@''"

definition INPUT_BUF :: cint where
  "INPUT_BUF = 128"

text \<open>
  Modelled from the spec: the header termios.h, which declares \<open>struct termios\<close> and the
  flags \<open>ECHO\<close> and \<open>ICANON\<close>, is not among the sources. The spec has two mode bits, echo and
  canonical, in the local-flags word; they are taken here as two distinct bits of \<open>c_lflag\<close>.
\<close>

definition ECHO :: cint where
  "ECHO = 0x8"

definition ICANON :: cint where
  "ICANON = 0x2"

record termios =
  c_lflag :: cint

text \<open>
  Modelled from the spec: sys/ioctl.h, which declares the request numbers \<open>TCGETA\<close> and
  \<open>TCSETA\<close>, is not among the sources; they are the get-mode and the set-mode request, two
  distinct numbers.
\<close>

definition TCGETA :: cint where
  "TCGETA = 0x5405"

definition TCSETA :: cint where
  "TCSETA = 0x5406"

subsection \<open>State\<close>

text \<open>
  The static data of console.c and what it shares with its collaborators:
  \<open>cons_termios\<close> is \<open>cons.termios\<close>, \<open>panicked\<close> the flag of that name,
  \<open>input_buf\<close>, \<open>input_r\<close>, \<open>input_w\<close>, \<open>input_e\<close> the struct \<open>input\<close>.
  \<open>uart\<close> is the list of bytes handed to \<open>uartputc\<close>, oldest first; \<open>wakeups\<close> counts the
  calls of \<open>wakeup(&input.r)\<close>, \<open>procdumps\<close> those of \<open>procdump()\<close>; \<open>killed\<close> is
  \<open>proc->killed\<close> of the process that reads. The spinlocks and the inode lock are not
  modelled: every operation runs as a whole.
\<close>

record kernel =
  cons_termios :: termios
  panicked :: bool
  input_buf :: "cchar list"
  input_r :: cint
  input_w :: cint
  input_e :: cint
  uart :: "cchar list"
  wakeups :: nat
  procdumps :: nat
  killed :: bool

text \<open>The statics as the C runtime zeroes them, before \<open>consoleinit\<close>.\<close>

definition boot :: kernel where
  "boot = \<lparr> cons_termios = \<lparr> c_lflag = 0 \<rparr>, panicked = False,
            input_buf = replicate 128 0, input_r = 0, input_w = 0, input_e = 0,
            uart = [], wakeups = 0, procdumps = 0, killed = False \<rparr>"

text \<open>
  \<open>consoleinit\<close> sets the mode flags; the locks it initialises and the device table it
  fills are outside the model.
\<close>

definition consoleinit :: "kernel \<Rightarrow> kernel" where
  "consoleinit s = s\<lparr> cons_termios := (cons_termios s)\<lparr> c_lflag := ECHO OR ICANON \<rparr> \<rparr>"

definition lflag :: "kernel \<Rightarrow> cint" where
  "lflag s = c_lflag (cons_termios s)"

subsection \<open>Output\<close>

text \<open>
  A function of the source that may not return has an \<open>option\<close> result: \<open>None\<close> is the
  processor spinning forever in \<open>for(;;)\<close>, or a behaviour that C leaves undefined.
\<close>

text \<open>
  Modelled from the spec: \<open>uartputc\<close> is in uart.c, not among the sources; the output sink
  forwards each byte to the device.
\<close>

definition uartputc :: "cint \<Rightarrow> kernel \<Rightarrow> kernel" where
  "uartputc c s = s\<lparr> uart := uart s @ [int_to_char c] \<rparr>"

definition consputc :: "cint \<Rightarrow> kernel \<Rightarrow> kernel option" where
  "consputc c s =
     (if panicked s then None
      else if c = BACKSPACE
        then Some (uartputc (chr CHR 0x08) (uartputc (chr CHR '' '') (uartputc (chr CHR 0x08) s)))
        else Some (uartputc c s))"

definition consechoc :: "cint \<Rightarrow> kernel \<Rightarrow> kernel option" where
  "consechoc c s =
     (if c \<noteq> C CHR ''D'' \<and> lflag s AND ECHO \<noteq> 0 then consputc c s else Some s)"

subsection \<open>The interrupt side: consoleintr\<close>

text \<open>The slot of the buffer that a cursor selects.\<close>

definition slot :: "cint \<Rightarrow> nat" where
  "slot i = unat (i mod INPUT_BUF)"

text \<open>The loop of the kill-line case (lines 120 to 124).\<close>

function kill_line :: "kernel \<Rightarrow> kernel option" where
  "kill_line s =
     (if input_e s \<noteq> input_w s \<and>
         char_to_int (input_buf s ! slot (input_e s - 1)) \<noteq> chr CHR 0x0A
      then (case consechoc BACKSPACE (s\<lparr> input_e := input_e s - 1 \<rparr>) of
              None \<Rightarrow> None
            | Some s' \<Rightarrow> kill_line s')
      else Some s)"
  by pat_completeness auto
termination
proof (relation "measure (\<lambda>s. unat (input_e s - input_w s))")
  show "wf (measure (\<lambda>s. unat (input_e s - input_w s)))" by simp
next
  fix s :: kernel and s' :: kernel
  assume a: "input_e s \<noteq> input_w s \<and>
         char_to_int (input_buf s ! slot (input_e s - 1)) \<noteq> chr CHR 0x0A"
    and c: "consechoc BACKSPACE (s\<lparr> input_e := input_e s - 1 \<rparr>) = Some s'"
  from c have e: "input_e s' = input_e s - 1 \<and> input_w s' = input_w s"
    by (auto simp: consechoc_def consputc_def uartputc_def split: if_splits)
  from a have nz: "input_e s - input_w s \<noteq> 0" by simp
  have "input_e s' - input_w s' = (input_e s - input_w s) - 1"
    using e by simp
  moreover have "unat ((input_e s - input_w s) - 1) < unat (input_e s - input_w s)"
    using nz by (simp add: unat_minus_one unat_gt_0)
  ultimately show "(s', s) \<in> measure (\<lambda>s. unat (input_e s - input_w s))"
    by simp
qed

text \<open>
  The general accumulation (lines 134 to 142): admit the code, echo it, commit.
\<close>

definition accumulate :: "cint \<Rightarrow> kernel \<Rightarrow> kernel option" where
  "accumulate c0 s =
     (if c0 \<noteq> 0 \<and> input_e s - input_r s < INPUT_BUF then
        let c = (if c0 = chr CHR 0x0D then chr CHR 0x0A else c0);
            s1 = s\<lparr> input_buf := (input_buf s)[slot (input_e s) := int_to_char c],
                    input_e := input_e s + 1 \<rparr>
        in case consechoc c s1 of
             None \<Rightarrow> None
           | Some s2 \<Rightarrow>
               if c = chr CHR 0x0A \<or> c = C CHR ''D'' \<or> input_e s2 = input_r s2 + INPUT_BUF
                  \<or> lflag s2 AND ICANON = 0
               then Some (s2\<lparr> input_w := input_e s2, wakeups := Suc (wakeups s2) \<rparr>)
               else Some s2
      else Some s)"

text \<open>The body of the loop of \<open>consoleintr\<close> for one code \<open>c\<close>.\<close>

definition consoleintr1 :: "cint \<Rightarrow> kernel \<Rightarrow> kernel option" where
  "consoleintr1 c s =
     (if lflag s AND ICANON \<noteq> 0 then
        if c = C CHR ''P'' then Some (s\<lparr> procdumps := Suc (procdumps s) \<rparr>)
        else if c = C CHR ''U'' then kill_line s
        else if c = C CHR ''H'' \<or> c = chr CHR 0x7F then
          (if input_e s \<noteq> input_w s
           then consechoc BACKSPACE (s\<lparr> input_e := input_e s - 1 \<rparr>)
           else Some s)
        else accumulate c s
      else accumulate c s)"

text \<open>
  \<open>consoleintr getc\<close>: the list holds what the successive calls of \<open>getc()\<close> return; past
  its end \<open>getc()\<close> returns \<open>-1\<close>. The loop ends at the first negative code.
\<close>

fun consoleintr :: "cint list \<Rightarrow> kernel \<Rightarrow> kernel option" where
  "consoleintr [] s = Some s"
| "consoleintr (c # cs) s =
     (if c <s 0 then Some s
      else case consoleintr1 c s of None \<Rightarrow> None | Some s' \<Rightarrow> consoleintr cs s')"

subsection \<open>The process side: consoleread\<close>

text \<open>
  While the reader sleeps in \<open>sleep(&input.r, &input.lock)\<close>, the rest of the kernel runs.
  An event is what happens before the reader runs again: an interrupt that calls
  \<open>consoleintr\<close> on the codes it finds, or the scheduler marking the process killed. The
  list of events given to a call is what happens during its successive sleeps; when it is
  used up, the reader is not woken again.
\<close>

datatype event = Intr "cint list" | Kill

fun wake :: "event \<Rightarrow> kernel \<Rightarrow> kernel option" where
  "wake (Intr codes) s = consoleintr codes s"
| "wake Kill s = Some (s\<lparr> killed := True \<rparr>)"

text \<open>The inner loop (lines 157 to 164): wait until \<open>input.r \<noteq> input.w\<close>.\<close>

datatype waited = Ready kernel "event list" | Killed kernel | Asleep kernel

fun await :: "kernel \<Rightarrow> event list \<Rightarrow> waited" where
  "await s [] =
     (if input_r s = input_w s then (if killed s then Killed s else Asleep s)
      else Ready s [])"
| "await s (ev # env) =
     (if input_r s = input_w s then
        (if killed s then Killed s
         else case wake ev s of None \<Rightarrow> Asleep s | Some s' \<Rightarrow> await s' env)
      else Ready s (ev # env))"

text \<open>
  How a call of \<open>consoleread\<close> ends: \<open>Failure\<close> is \<open>return -1\<close> (line 161);
  \<open>Count s dst v\<close> is \<open>return target - n\<close> (line 182), with the bytes \<open>dst\<close> written to
  the caller's buffer and the value \<open>v\<close> returned; \<open>Blocked\<close> is a reader that sleeps and
  is not woken again.
\<close>

datatype read_result = Failure kernel | Count kernel "cchar list" cint | Blocked kernel


function consoleread_loop ::
  "kernel \<Rightarrow> cint \<Rightarrow> cint \<Rightarrow> cchar list \<Rightarrow> event list \<Rightarrow> read_result" where
  "consoleread_loop s n target dst env =
     (if 0 <s n then
        (case await s env of
           Killed s' \<Rightarrow> Failure s'
         | Asleep s' \<Rightarrow> Blocked s'
         | Ready s' env' \<Rightarrow>
             let c = char_to_int (input_buf s' ! slot (input_r s'));
                 s1 = s'\<lparr> input_r := input_r s' + 1 \<rparr>
             in if c = C CHR ''D'' \<and> lflag s1 AND ICANON \<noteq> 0 then
                  Count (if n < target then s1\<lparr> input_r := input_r s1 - 1 \<rparr> else s1)
                        dst (target - n)
                else if c = chr CHR 0x0A \<and> lflag s1 AND ICANON \<noteq> 0 then
                  Count s1 (dst @ [int_to_char c]) (target - (n - 1))
                else consoleread_loop s1 (n - 1) target (dst @ [int_to_char c]) env')
      else Count s dst (target - n))"
  by pat_completeness auto
termination
proof (relation "measure (\<lambda>(s, n, target, dst, env). nat (sint n))")
  show "wf (measure (\<lambda>(s, n, target, dst, env). nat (sint n)))" by simp
next
  fix s :: kernel and n target :: cint and dst :: "cchar list" and env :: "event list"
    and s' env' c s1
  assume pos: "0 <s n"
  then have "0 < sint n" by (simp add: word_sless_alt)
  moreover from this have "sint (n - 1) = sint n - 1"
  proof -
    assume a: "0 < sint n"
    have "sint n < 2 ^ 31" using sint_lt [of n] by simp
    with a have "signed_take_bit 31 (sint n - 1) = sint n - 1"
      by (intro signed_take_bit_int_eq_self) auto
    then show ?thesis by (simp add: sint_word_ariths)
  qed
  ultimately show "((s1, n - 1, target, dst @ [int_to_char c], env'), (s, n, target, dst, env))
      \<in> measure (\<lambda>(s, n, target, dst, env). nat (sint n))"
    by simp
qed

declare kill_line.simps [simp del] consoleread_loop.simps [simp del]

definition consoleread :: "cint \<Rightarrow> event list \<Rightarrow> kernel \<Rightarrow> read_result" where
  "consoleread n env s = consoleread_loop s n n [] env"

subsection \<open>consolewrite and consoleioctl\<close>

text \<open>\<open>consputc\<close> on each code of a list, in order.\<close>

fun putcs :: "cint list \<Rightarrow> kernel \<Rightarrow> kernel option" where
  "putcs [] s = Some s"
| "putcs (c # cs) s = (case consputc c s of None \<Rightarrow> None | Some s' \<Rightarrow> putcs cs s')"

text \<open>\<open>consolewrite(ip, buf, n)\<close>: the list is the \<open>n\<close> bytes of the caller's buffer.\<close>

definition consolewrite :: "cchar list \<Rightarrow> kernel \<Rightarrow> (kernel \<times> cint) option" where
  "consolewrite buf s =
     (case putcs (map (\<lambda>b. char_to_int b AND 0xff) buf) s of
        None \<Rightarrow> None
      | Some s' \<Rightarrow> Some (s', word_of_nat (length buf)))"

text \<open>
  \<open>consoleioctl(ip, req)\<close>. The third argument of the system call is fetched by
  \<open>argptr\<close>: \<open>None\<close> is a pointer that \<open>argptr\<close> rejects, \<open>Some t\<close> a valid pointer to
  the structure \<open>t\<close> of the caller. The result is the new state, the caller's structure
  afterwards, and the value returned: the function ends without a \<open>return\<close> after a get or
  a set (line 212), so it returns no value there (\<open>None\<close>).
\<close>

definition consoleioctl ::
  "cint \<Rightarrow> termios option \<Rightarrow> kernel \<Rightarrow> kernel \<times> termios option \<times> cint option" where
  "consoleioctl req termios_p s =
     (if req \<noteq> TCGETA \<and> req \<noteq> TCSETA then (s, termios_p, Some (- 1))
      else case termios_p of
        None \<Rightarrow> (s, termios_p, Some (- 1))
      | Some t \<Rightarrow>
          if req = TCGETA then (s, Some (cons_termios s), None)
          else (s\<lparr> cons_termios := t \<rparr>, Some t, None))"

subsection \<open>The formatter: printint and cprintf\<close>

text \<open>The array \<open>digits\<close> of \<open>printint\<close>, with the NUL byte that ends it.\<close>

definition digits :: "cchar list" where
  "digits = cstr ''0123456789abcdef'' @ [0]"

text \<open>
  The \<open>do ... while\<close> loop of \<open>printint\<close> (lines 43 to 45); \<open>buf\<close> holds \<open>buf[0..i-1]\<close>.
  Dividing by zero, reading past \<open>digits\<close> and writing past the 16 bytes of \<open>buf\<close> are
  undefined in C: \<open>None\<close>.
\<close>

function printint_digits :: "cint \<Rightarrow> cint \<Rightarrow> cchar list \<Rightarrow> cchar list option" where
  "printint_digits x base buf =
     (if base = 0 \<or> 16 \<le> length buf \<or> length digits \<le> unat (x mod base) then None
      else if x div base \<noteq> 0
        then printint_digits (x div base) base (buf @ [digits ! unat (x mod base)])
        else Some (buf @ [digits ! unat (x mod base)]))"
  by pat_completeness auto
termination
  by (relation "measure (\<lambda>(x, base, buf). 16 - length buf)") auto

declare printint_digits.simps [simp del]

definition printint :: "cint \<Rightarrow> cint \<Rightarrow> cint \<Rightarrow> kernel \<Rightarrow> kernel option" where
  "printint xx base sign s =
     (let neg = (sign \<noteq> 0 \<and> xx <s 0);
          x = (if neg then - xx else xx)
      in case printint_digits x base [] of
           None \<Rightarrow> None
         | Some buf \<Rightarrow>
             if neg then
               (if 16 \<le> length buf then None
                else putcs (map char_to_int (rev (buf @ [int_to_char (chr CHR ''-'')]))) s)
             else putcs (map char_to_int (rev buf)) s)"

text \<open>
  \<open>panic\<close> prints its message and the caller's return addresses, sets \<open>panicked\<close> and spins
  in \<open>for(;;)\<close>: it does not return.
\<close>

definition panic :: "cchar list \<Rightarrow> kernel \<Rightarrow> kernel option" where
  "panic msg s = None"

text \<open>The bytes of a C string up to its terminator.\<close>

definition c_string :: "cchar list \<Rightarrow> cchar list" where
  "c_string bs = takeWhile (\<lambda>b. b \<noteq> 0) bs"

text \<open>
  The \<open>switch\<close> of \<open>cprintf\<close> (lines 253 to 275) on the character \<open>c\<close> after a
  \<open>%\<close>. The arguments after \<open>fmt\<close> are words on the stack, read one after the other
  through \<open>argp\<close>; the result holds those not yet read. Reading past the last one is
  undefined: \<open>None\<close>. \<open>mem a\<close> is the string at the address \<open>a\<close>, for \<open>%s\<close>.
\<close>

definition conversion ::
  "(cint \<Rightarrow> cchar list) \<Rightarrow> cint \<Rightarrow> cint list \<Rightarrow> kernel \<Rightarrow> (cint list \<times> kernel) option" where
  "conversion mem c args s =
     (if c = chr CHR ''d'' then
        (case args of [] \<Rightarrow> None
         | a # args' \<Rightarrow> map_option (Pair args') (printint a 10 1 s))
      else if c = chr CHR ''x'' \<or> c = chr CHR ''p'' then
        (case args of [] \<Rightarrow> None
         | a # args' \<Rightarrow> map_option (Pair args') (printint a 16 0 s))
      else if c = chr CHR ''s'' then
        (case args of [] \<Rightarrow> None
         | a # args' \<Rightarrow>
             map_option (Pair args')
               (putcs (map char_to_int (c_string (if a = 0 then cstr ''(null)'' else mem a))) s))
      else if c = chr CHR ''%'' then map_option (Pair args) (consputc (chr CHR ''%'') s)
      else map_option (Pair args) (putcs [chr CHR ''%'', c] s))"

text \<open>The loop of \<open>cprintf\<close> (lines 244 to 276) on the rest of the format, \<open>fmt + i\<close>.\<close>

fun cprintf_loop ::
  "(cint \<Rightarrow> cchar list) \<Rightarrow> cchar list \<Rightarrow> cint list \<Rightarrow> kernel \<Rightarrow> kernel option" where
  "cprintf_loop mem [] args s = Some s"
| "cprintf_loop mem [b] args s =
     (let c = char_to_int b AND 0xff in
      if c = 0 then Some s
      else if c \<noteq> chr CHR ''%'' then consputc c s
      else Some s)"
| "cprintf_loop mem (b # b' # fmt) args s =
     (let c = char_to_int b AND 0xff in
      if c = 0 then Some s
      else if c \<noteq> chr CHR ''%'' then
        (case consputc c s of None \<Rightarrow> None | Some s' \<Rightarrow> cprintf_loop mem (b' # fmt) args s')
      else
        let c = char_to_int b' AND 0xff in
        if c = 0 then Some s
        else case conversion mem c args s of
               None \<Rightarrow> None
             | Some (args', s') \<Rightarrow> cprintf_loop mem fmt args' s')"

text \<open>\<open>cprintf(fmt, ...)\<close>; \<open>None\<close> for \<open>fmt\<close> is the null pointer.\<close>

definition cprintf ::
  "(cint \<Rightarrow> cchar list) \<Rightarrow> cchar list option \<Rightarrow> cint list \<Rightarrow> kernel \<Rightarrow> kernel option" where
  "cprintf mem fmt args s =
     (case fmt of None \<Rightarrow> panic (cstr ''null fmt'') s | Some f \<Rightarrow> cprintf_loop mem f args s)"

section \<open>Observations, invariants and reachable states\<close>

text \<open>
  The bytes that the buffer holds at the cursor positions from \<open>lo\<close> up to, not including,
  \<open>hi\<close>, in order.
\<close>

definition span :: "cchar list \<Rightarrow> cint \<Rightarrow> cint \<Rightarrow> cchar list" where
  "span buf lo hi = map (\<lambda>k. buf ! slot (lo + word_of_nat k)) [0..<unat (hi - lo)]"

text \<open>
  The stored data not yet read (from R to E), the part of it a reader may take (from R to
  W), and the line under edit (from W to E).
\<close>

definition unread :: "kernel \<Rightarrow> cchar list" where
  "unread s = span (input_buf s) (input_r s) (input_e s)"

definition committed :: "kernel \<Rightarrow> cchar list" where
  "committed s = span (input_buf s) (input_r s) (input_w s)"

definition pending :: "kernel \<Rightarrow> cchar list" where
  "pending s = span (input_buf s) (input_w s) (input_e s)"

text \<open>The byte that \<open>consoleintr\<close> stores for the raw code \<open>c\<close> (lines 135 and 136).\<close>

definition stored :: "cint \<Rightarrow> cchar" where
  "stored c = int_to_char (if c = chr CHR 0x0D then chr CHR 0x0A else c)"

text \<open>
  The order of the cursors, modulo \<open>2 ^ 32\<close>: the distances from R are compared, so that
  the statement survives the wrap-around of the cursors.
\<close>

definition cursors_ok :: "kernel \<Rightarrow> bool" where
  "cursors_ok s \<longleftrightarrow>
     input_w s - input_r s \<le> input_e s - input_r s \<and> input_e s - input_r s \<le> INPUT_BUF"

text \<open>
  The invariant of the console, for raw codes that all satisfy \<open>P\<close>: the buffer has its
  128 slots, \<open>panicked\<close> is clear, the cursors are in order, every unread byte was stored
  for a code that satisfies \<open>P\<close>, and, when the codes are all below \<open>0x100\<close>, the line
  under edit holds no line terminator.
\<close>

definition good :: "(cint \<Rightarrow> bool) \<Rightarrow> kernel \<Rightarrow> bool" where
  "good P s \<longleftrightarrow>
     length (input_buf s) = 128 \<and> \<not> panicked s \<and> cursors_ok s \<and>
     (\<forall>b \<in> set (unread s). \<exists>c. P c \<and> b = stored c) \<and>
     ((\<forall>c. P c \<longrightarrow> c < 0x100) \<longrightarrow> 10 \<notin> set (pending s))"

text \<open>The raw codes that an event feeds, and the state in which a call of \<open>consoleread\<close> ends.\<close>

fun event_codes :: "event \<Rightarrow> cint list" where
  "event_codes (Intr codes) = codes"
| "event_codes Kill = []"

fun final :: "read_result \<Rightarrow> kernel" where
  "final (Failure s) = s"
| "final (Count s dst v) = s"
| "final (Blocked s) = s"

text \<open>
  The states that the operations of the console reach from the zeroed statics, when every
  raw code that \<open>getc\<close> delivers satisfies \<open>P\<close> (\<open>\<lambda>c. True\<close> for any code at all). An
  operation that does not return (\<open>None\<close>) leads nowhere; the scheduler may set or clear
  \<open>proc->killed\<close> between two operations.
\<close>

inductive reachable :: "(cint \<Rightarrow> bool) \<Rightarrow> kernel \<Rightarrow> bool" for P where
  at_boot: "reachable P boot"
| by_init: "reachable P s \<Longrightarrow> reachable P (consoleinit s)"
| by_intr: "reachable P s \<Longrightarrow> list_all P codes \<Longrightarrow> consoleintr codes s = Some s' \<Longrightarrow>
            reachable P s'"
| by_read: "reachable P s \<Longrightarrow> list_all P (concat (map event_codes env)) \<Longrightarrow>
            reachable P (final (consoleread n env s))"
| by_ioctl: "reachable P s \<Longrightarrow> reachable P (fst (consoleioctl req termios_p s))"
| by_write: "reachable P s \<Longrightarrow> consolewrite buf s = Some (s', v) \<Longrightarrow> reachable P s'"
| by_cprintf: "reachable P s \<Longrightarrow> cprintf mem fmt args s = Some s' \<Longrightarrow> reachable P s'"
| by_sched: "reachable P s \<Longrightarrow> reachable P (s\<lparr> killed := k \<rparr>)"

text \<open>Two states that differ in the output only; two states that a reader cannot tell apart
  by its own cursor, the mode, or the flags \<open>killed\<close> and \<open>panicked\<close>.\<close>

definition only_uart :: "kernel \<Rightarrow> kernel \<Rightarrow> bool" where
  "only_uart s s' \<longleftrightarrow> s' = s\<lparr> uart := uart s' \<rparr>"

definition same_reader :: "kernel \<Rightarrow> kernel \<Rightarrow> bool" where
  "same_reader s s' \<longleftrightarrow>
     input_r s' = input_r s \<and> cons_termios s' = cons_termios s \<and> killed s' = killed s \<and>
     panicked s' = panicked s"

text \<open>The state after \<open>consoleinit\<close> and 128 codes \<open>a\<close>: the window is full.\<close>

definition full_window :: kernel where
  "full_window = \<lparr> cons_termios = \<lparr> c_lflag = ECHO OR ICANON \<rparr>, panicked = False,
     input_buf = replicate 128 97, input_r = 0, input_w = 128, input_e = 128,
     uart = replicate 128 97, wakeups = 1, procdumps = 0, killed = False \<rparr>"

text \<open>The state after \<open>consoleinit\<close> and the codes \<open>a\<close>, \<open>b\<close>, Ctrl-D.\<close>

definition after_ab_eof :: kernel where
  "after_ab_eof = \<lparr> cons_termios = \<lparr> c_lflag = ECHO OR ICANON \<rparr>, panicked = False,
     input_buf = cstr ''ab'' @ [4] @ replicate 125 0, input_r = 0, input_w = 3, input_e = 3,
     uart = cstr ''ab'', wakeups = 1, procdumps = 0, killed = False \<rparr>"

text \<open>What \<open>k\<close> echoed erases put on the line: \<open>k\<close> times backspace, space, backspace when ECHO is set.\<close>

definition erase_echo :: "kernel \<Rightarrow> nat \<Rightarrow> cchar list" where
  "erase_echo s k = (if lflag s AND ECHO \<noteq> 0 then concat (replicate k [8, 32, 8]) else [])"

text \<open>The state after \<open>consoleinit\<close> and the single raw code \<open>0x10A\<close>.\<close>

definition after_10a :: kernel where
  "after_10a = \<lparr> cons_termios = \<lparr> c_lflag = ECHO OR ICANON \<rparr>, panicked = False,
     input_buf = [10] @ replicate 127 0, input_r = 0, input_w = 0, input_e = 1,
     uart = [10], wakeups = 0, procdumps = 0, killed = False \<rparr>"

text \<open>The state after \<open>consoleinit\<close> and the codes \<open>x\<close>, carriage return, \<open>a\<close>, \<open>b\<close>, \<open>c\<close>.\<close>

definition after_line_abc :: kernel where
  "after_line_abc = \<lparr> cons_termios = \<lparr> c_lflag = ECHO OR ICANON \<rparr>, panicked = False,
     input_buf = cstr ''x'' @ [10] @ cstr ''abc'' @ replicate 123 0,
     input_r = 0, input_w = 2, input_e = 5,
     uart = cstr ''x'' @ [10] @ cstr ''abc'', wakeups = 1, procdumps = 0, killed = False \<rparr>"

text \<open>
  Two states that agree on the buffer, the cursors, the wake-ups and on canonical mode, the
  second with ECHO clear; neither is panicked.
\<close>

definition echo_twins :: "kernel \<Rightarrow> kernel \<Rightarrow> bool" where
  "echo_twins s t \<longleftrightarrow>
     input_buf s = input_buf t \<and> input_r s = input_r t \<and> input_w s = input_w t \<and>
     input_e s = input_e t \<and> wakeups s = wakeups t \<and> procdumps s = procdumps t \<and>
     killed s = killed t \<and> \<not> panicked s \<and> \<not> panicked t \<and>
     lflag s AND ICANON = lflag t AND ICANON \<and> lflag t AND ECHO = 0"

text \<open>
  A format that ends with a lone \<open>%\<close>: scanned as \<open>cprintf\<close> scans it, two characters
  at a time after each \<open>%\<close>, the last character is a \<open>%\<close> that opens a directive.
\<close>

fun ends_with_lone_percent :: "cchar list \<Rightarrow> bool" where
  "ends_with_lone_percent [] = False"
| "ends_with_lone_percent [b] = (char_to_int b AND 0xff = chr CHR ''%'')"
| "ends_with_lone_percent (b # b' # fmt) =
     (if char_to_int b AND 0xff = 0 then False
      else if char_to_int b AND 0xff \<noteq> chr CHR ''%'' then ends_with_lone_percent (b' # fmt)
      else if char_to_int b' AND 0xff = 0 then False
      else ends_with_lone_percent fmt)"

text \<open>A memory with the string \<open>hi\<close> at the address \<open>0x1000\<close>.\<close>

definition hi_at :: "cint \<Rightarrow> cchar list" where
  "hi_at a = (if a = 0x1000 then cstr ''hi'' else [])"

text \<open>
  What a rendering means: the value of a digit character, the value of a numeral (most
  significant digit first) in a base, and the numerals of a base, with no leading zero.
\<close>

definition digit_value :: "cchar \<Rightarrow> nat" where
  "digit_value d = (if d \<le> 57 then unat d - 48 else unat d - 87)"

definition numeral_value :: "nat \<Rightarrow> cchar list \<Rightarrow> nat" where
  "numeral_value base ds = foldl (\<lambda>v d. v * base + digit_value d) 0 ds"

definition is_numeral :: "nat \<Rightarrow> cchar list \<Rightarrow> bool" where
  "is_numeral base ds \<longleftrightarrow>
     ds \<noteq> [] \<and> set ds \<subseteq> set (take base (cstr ''0123456789abcdef'')) \<and>
     (hd ds = 48 \<longrightarrow> ds = [48])"

text \<open>The state after \<open>consoleinit\<close> and the codes \<open>a\<close>, \<open>b\<close>, return, \<open>c\<close>, \<open>d\<close>, return: two lines.\<close>

definition after_two_lines :: kernel where
  "after_two_lines = \<lparr> cons_termios = \<lparr> c_lflag = ECHO OR ICANON \<rparr>, panicked = False,
     input_buf = cstr ''ab'' @ [10] @ cstr ''cd'' @ [10] @ replicate 122 0,
     input_r = 0, input_w = 6, input_e = 6,
     uart = cstr ''ab'' @ [10] @ cstr ''cd'' @ [10], wakeups = 2, procdumps = 0, killed = False \<rparr>"

text \<open>
  A turn of the loop of \<open>consoleread\<close> inside a call: \<open>target\<close> is the length asked for,
  \<open>n\<close> what is left of it, and \<open>dst\<close> the bytes delivered so far in this call, so that
  \<open>target = n + length dst\<close>. The call starts with \<open>n = target\<close> and no byte delivered,
  and each delivery takes one from \<open>n\<close> and adds one byte.
\<close>

definition in_call :: "cint \<Rightarrow> cint \<Rightarrow> cchar list \<Rightarrow> bool" where
  "in_call n target dst \<longleftrightarrow> 0 \<le> sint n \<and> sint target = sint n + int (length dst)"

text \<open>
  The state after \<open>consoleinit\<close> once an interrupt has fed the single code Ctrl-D, and the
  full window once its 128 bytes are read and an interrupt has fed Ctrl-D.
\<close>

definition woken_by_eof :: kernel where
  "woken_by_eof = (consoleinit boot)\<lparr> input_buf := (input_buf (consoleinit boot))[0 := 4],
     input_w := 1, input_e := 1, wakeups := 1 \<rparr>"

definition full_then_eof :: kernel where
  "full_then_eof = full_window\<lparr> input_buf := (input_buf full_window)[0 := 4],
     input_r := 128, input_w := 129, input_e := 129, wakeups := 2 \<rparr>"

section \<open>Basic facts\<close>

lemma chr_simps [simp]:
  "chr CHR 0x0A = 10" "chr CHR 0x0D = 13" "chr CHR 0x08 = 8" "chr CHR '' '' = 32"
  "chr CHR 0x7F = 127" "chr CHR ''%'' = 37" "chr CHR ''d'' = 100" "chr CHR ''x'' = 120"
  "chr CHR ''p'' = 112" "chr CHR ''s'' = 115" "chr CHR ''-'' = 45"
  by (simp_all add: chr_def)

lemma C_simps [simp]:
  "C CHR ''D'' = 4" "C CHR ''P'' = 16" "C CHR ''U'' = 21" "C CHR ''H'' = 8"
  by (simp_all add: C_def chr_def)

lemma int_to_char_to_int [simp]: "int_to_char (char_to_int b) = b"
  unfolding int_to_char_def char_to_int_def
  by (rule bit_word_eqI) (auto simp: bit_simps)

lemma int_to_char_numerals [simp]: "int_to_char 10 = 10" "int_to_char 4 = 4"
  by (simp_all add: int_to_char_def)

lemma char_to_int_eq_10 [simp]: "char_to_int b = 10 \<longleftrightarrow> b = 10"
proof
  assume "char_to_int b = 10"
  then have "int_to_char (char_to_int b) = int_to_char 10" by simp
  then show "b = 10" by simp
qed (simp add: char_to_int_def)

lemma char_to_int_eq_4 [simp]: "char_to_int b = 4 \<longleftrightarrow> b = 4"
proof
  assume "char_to_int b = 4"
  then have "int_to_char (char_to_int b) = int_to_char 4" by simp
  then show "b = 4" by simp
qed (simp add: char_to_int_def)

lemma consechoc_input_e: "consechoc c s = Some s' \<Longrightarrow> input_e s' = input_e s"
  by (auto simp: consechoc_def consputc_def uartputc_def split: if_splits)

section \<open>Cursor arithmetic and the bytes between two cursors\<close>

lemma off_succ: "(e::cint) - r < 128 \<Longrightarrow> unat (e + 1 - r) = Suc (unat (e - r))"
proof -
  assume a: "e - r < 128"
  then have "unat (e - r) < 128" by (simp add: word_less_nat_alt)
  then have h: "unat ((e - r) + 1) = Suc (unat (e - r))"
    by (simp add: unat_word_ariths)
  have eq: "e + 1 - r = (e - r) + 1" by simp
  show ?thesis by (simp only: eq h)
qed

lemma off_pred: "(e::cint) \<noteq> r \<Longrightarrow> unat (e - 1 - r) = unat (e - r) - 1"
proof -
  assume "e \<noteq> r"
  then have "e - r \<noteq> 0" by simp
  then have h: "unat ((e - r) - 1) = unat (e - r) - 1" by (rule unat_minus_one)
  have eq: "e - 1 - r = (e - r) - 1" by simp
  show ?thesis by (simp only: eq h)
qed

lemma off_lo_succ: "(w::cint) \<noteq> r \<Longrightarrow> unat (w - (r + 1)) = unat (w - r) - 1"
proof -
  assume "w \<noteq> r"
  then have "w - r \<noteq> 0" by simp
  then have h: "unat ((w - r) - 1) = unat (w - r) - 1" by (rule unat_minus_one)
  have eq: "w - (r + 1) = (w - r) - 1" by simp
  show ?thesis by (simp only: eq h)
qed

lemma off_inj: "unat ((a::cint) - r) = unat (b - r) \<longleftrightarrow> a = b"
  by (metis diff_add_cancel word_unat_eq_iff)

lemma off_zero: "unat ((a::cint) - r) = 0 \<longleftrightarrow> a = r"
  by (simp add: unat_eq_0)

lemma slot_less [simp]: "slot i < 128"
proof -
  have "i mod 128 < 128" by (rule word_mod_less_divisor) simp
  then show ?thesis by (simp add: slot_def INPUT_BUF_def word_less_nat_alt)
qed

lemma span_Nil [simp]: "span buf lo lo = []"
  by (simp add: span_def)

lemma off_succ': "(e::cint) + 1 \<noteq> r \<Longrightarrow> unat (e + 1 - r) = Suc (unat (e - r))"
proof -
  assume "e + 1 \<noteq> r"
  then have "(e - r) + 1 \<noteq> 0" by (metis add_diff_cancel_right' diff_add_eq diff_self eq_iff_diff_eq_0 add.commute)
  then have h: "unat ((e - r) + 1) = Suc (unat (e - r))"
    using unatSuc [of "e - r"] by (simp add: add.commute)
  have eq: "e + 1 - r = (e - r) + 1" by simp
  show ?thesis by (simp only: eq h)
qed

lemma span_snoc: "hi + 1 \<noteq> lo \<Longrightarrow> span buf lo (hi + 1) = span buf lo hi @ [buf ! slot hi]"
  by (simp add: span_def off_succ')

lemma span_butlast: "hi \<noteq> lo \<Longrightarrow> span buf lo hi = span buf lo (hi - 1) @ [buf ! slot (hi - 1)]"
  using span_snoc [of "hi - 1" lo buf] by simp

lemma span_Cons: "hi \<noteq> lo \<Longrightarrow> span buf lo hi = buf ! slot lo # span buf (lo + 1) hi"
proof -
  assume a: "hi \<noteq> lo"
  then have n: "unat (hi - lo) = Suc (unat (hi - (lo + 1)))"
    using off_lo_succ [of hi lo] by (simp add: off_zero Suc_pred' unat_gt_0)
  have "[0..<Suc (unat (hi - (lo + 1)))] = 0 # map Suc [0..<unat (hi - (lo + 1))]"
    by (simp add: upt_conv_Cons map_Suc_upt del: upt_Suc)
  then show ?thesis
    by (simp add: span_def n comp_def add.assoc del: upt_Suc)
qed

lemma span_update: "set (span (buf[i := b]) lo hi) \<subseteq> insert b (set (span buf lo hi))"
proof -
  have "(buf[i := b]) ! j = b \<or> (buf[i := b]) ! j = buf ! j" for j
    by (cases "i = j"; cases "i < length buf") (simp_all add: list_update_beyond)
  then show ?thesis by (fastforce simp: span_def)
qed

section \<open>The invariant is kept\<close>

lemma good_irrelevant [simp]:
  "good P (s\<lparr> uart := u \<rparr>) = good P s"
  "good P (s\<lparr> wakeups := n \<rparr>) = good P s"
  "good P (s\<lparr> procdumps := n \<rparr>) = good P s"
  "good P (s\<lparr> killed := k \<rparr>) = good P s"
  "good P (s\<lparr> cons_termios := t \<rparr>) = good P s"
  by (simp_all add: good_def cursors_ok_def unread_def pending_def)

lemma consechoc_Some: "consechoc c s = Some s' \<Longrightarrow> s' = s\<lparr> uart := uart s' \<rparr>"
  by (auto simp: consechoc_def consputc_def uartputc_def split: if_splits)

lemma consechoc_total: "\<not> panicked s \<Longrightarrow> \<exists>s'. consechoc c s = Some s'"
  by (auto simp: consechoc_def consputc_def uartputc_def)

lemma cursors_e_ne_r: "cursors_ok s \<Longrightarrow> input_e s \<noteq> input_w s \<Longrightarrow> input_e s \<noteq> input_r s"
  by (auto simp: cursors_ok_def)

lemma good_erase:
  assumes "good P s" "input_e s \<noteq> input_w s"
  shows "good P (s\<lparr> input_e := input_e s - 1 \<rparr>)"
proof -
  from assms have ner: "input_e s \<noteq> input_r s" by (auto simp: good_def dest: cursors_e_ne_r)
  from assms have c: "cursors_ok s" by (simp add: good_def)
  have lt: "unat (input_w s - input_r s) < unat (input_e s - input_r s)"
    using c assms(2) by (metis cursors_ok_def le_neq_implies_less off_inj word_le_nat_alt)
  have "cursors_ok (s\<lparr> input_e := input_e s - 1 \<rparr>)"
    using c lt ner by (simp add: cursors_ok_def word_le_nat_alt off_pred INPUT_BUF_def) arith
  moreover have "set (unread (s\<lparr> input_e := input_e s - 1 \<rparr>)) \<subseteq> set (unread s)"
    using span_butlast [OF ner, of "input_buf s"] by (auto simp add: unread_def)
  moreover have "set (pending (s\<lparr> input_e := input_e s - 1 \<rparr>)) \<subseteq> set (pending s)"
    using span_butlast [OF assms(2), of "input_buf s"] by (auto simp add: pending_def)
  ultimately show ?thesis using assms(1) unfolding good_def by (auto simp: subset_iff)
qed

lemma good_pop:
  assumes "good P s" "input_r s \<noteq> input_w s"
  shows "good P (s\<lparr> input_r := input_r s + 1 \<rparr>)"
proof -
  from assms have c: "cursors_ok s" by (simp add: good_def)
  have wr: "input_w s \<noteq> input_r s" using assms(2) by simp
  have er: "input_e s \<noteq> input_r s"
    using c wr by (auto simp: cursors_ok_def)
  have "cursors_ok (s\<lparr> input_r := input_r s + 1 \<rparr>)"
    using c wr er by (simp add: cursors_ok_def word_le_nat_alt off_lo_succ INPUT_BUF_def) arith
  moreover have "set (unread (s\<lparr> input_r := input_r s + 1 \<rparr>)) \<subseteq> set (unread s)"
    using span_Cons [OF er, of "input_buf s"] by (auto simp add: unread_def)
  moreover have "pending (s\<lparr> input_r := input_r s + 1 \<rparr>) = pending s"
    by (simp add: pending_def)
  ultimately show ?thesis using assms(1) unfolding good_def by (auto simp: subset_iff)
qed

lemma int_to_char_byte_eq_10: "c < 0x100 \<Longrightarrow> int_to_char c = 10 \<longleftrightarrow> c = 10"
proof
  assume lt: "c < 0x100" and e: "int_to_char c = 10"
  from lt have "unat c < 256" by (simp add: word_less_nat_alt)
  then have "unat (ucast c :: cchar) = unat c"
    by (simp add: unsigned_ucast_eq take_bit_nat_eq_self)
  with e have "unat c = 10" by (simp add: int_to_char_def)
  then show "c = 10" by (simp add: word_unat_eq_iff)
qed simp

lemma stored_simps: "stored 13 = 10" "c \<noteq> 13 \<Longrightarrow> stored c = int_to_char c"
  by (simp_all add: stored_def)

lemma good_push:
  assumes g: "good P s" and room: "input_e s - input_r s < INPUT_BUF" and Pc: "P c0"
    and b: "b = stored c0"
    and s1: "s1 = s\<lparr> input_buf := (input_buf s)[slot (input_e s) := b], input_e := input_e s + 1 \<rparr>"
  shows "good P (s1\<lparr> input_w := input_e s1 \<rparr>)"
    and "((\<forall>c. P c \<longrightarrow> c < 0x100) \<longrightarrow> b \<noteq> 10) \<Longrightarrow> good P s1"
proof -
  from g have c: "cursors_ok s" and len: "length (input_buf s) = 128" and np: "\<not> panicked s"
    by (simp_all add: good_def)
  from room have room': "input_e s - input_r s < 128" by (simp add: INPUT_BUF_def)
  note su = off_succ [OF room']
  from su have ner: "input_e s + 1 \<noteq> input_r s" by (metis off_zero nat.distinct(1))
  have new: "cursors_ok s1"
    using c room' su by (simp add: s1 cursors_ok_def word_le_nat_alt word_less_nat_alt INPUT_BUF_def)
  have new': "cursors_ok (s1\<lparr> input_w := input_e s1 \<rparr>)"
    using new by (simp add: s1 cursors_ok_def)
  have new_nth: "(input_buf s)[slot (input_e s) := b] ! slot (input_e s) = b"
    using len by simp
  have un: "set (unread s1) \<subseteq> insert b (set (unread s))"
    using span_update [of "input_buf s" "slot (input_e s)" b "input_r s" "input_e s"]
    by (auto simp: s1 unread_def span_snoc [OF ner] new_nth)
  have un': "set (unread (s1\<lparr> input_w := input_e s1 \<rparr>)) = set (unread s1)"
    by (simp add: unread_def)
  have newr: "input_e s + 1 \<noteq> input_w s"
  proof
    assume "input_e s + 1 = input_w s"
    then have "unat (input_w s - input_r s) = Suc (unat (input_e s - input_r s))"
      using su by simp
    with c show False by (simp add: cursors_ok_def word_le_nat_alt)
  qed
  have pe: "set (pending s1) \<subseteq> insert b (set (pending s))"
    using span_update [of "input_buf s" "slot (input_e s)" b "input_w s" "input_e s"]
    by (auto simp: s1 pending_def span_snoc [OF newr] new_nth)
  have pe': "pending (s1\<lparr> input_w := input_e s1 \<rparr>) = []"
    by (simp add: pending_def)
  have stored_ok: "\<forall>x \<in> set (unread s1). \<exists>c. P c \<and> x = stored c"
    using un g Pc b by (auto simp: good_def)
  show "good P (s1\<lparr> input_w := input_e s1 \<rparr>)"
    unfolding good_def using new' stored_ok len np pe' un' by (simp add: s1)
  show "good P s1" if "(\<forall>c. P c \<longrightarrow> c < 0x100) \<longrightarrow> b \<noteq> 10"
    unfolding good_def using new stored_ok len np pe that g
    by (auto simp: s1 good_def)
qed

lemma accumulate_good:
  assumes g: "good P s" and Pc: "P c" and a: "accumulate c s = Some s'"
  shows "good P s'"
proof (cases "c \<noteq> 0 \<and> input_e s - input_r s < INPUT_BUF")
  case False
  with a g show ?thesis by (auto simp: accumulate_def)
next
  case True
  define c' where "c' = (if c = 13 then 10 else c)"
  define s1 where "s1 = s\<lparr> input_buf := (input_buf s)[slot (input_e s) := stored c],
                    input_e := input_e s + 1 \<rparr>"
  have st: "int_to_char c' = stored c" by (simp add: c'_def stored_def)
  from True have room: "input_e s - input_r s < INPUT_BUF" by simp
  note gp = good_push [OF g room Pc refl s1_def]
  from a True obtain s2 where e: "consechoc c' s1 = Some s2"
    and r: "s' = (if c' = 10 \<or> c' = 4 \<or> input_e s2 = input_r s2 + INPUT_BUF \<or> lflag s2 AND ICANON = 0
               then s2\<lparr> input_w := input_e s2, wakeups := Suc (wakeups s2) \<rparr> else s2)"
    by (auto simp: accumulate_def Let_def c'_def s1_def stored_def split: option.splits if_splits)
  from consechoc_Some [OF e] obtain u where s2: "s2 = s1\<lparr> uart := u \<rparr>" by blast
  show ?thesis
  proof (cases "c' = 10 \<or> c' = 4 \<or> input_e s2 = input_r s2 + INPUT_BUF \<or> lflag s2 AND ICANON = 0")
    case True
    have "good P (s1\<lparr> input_w := input_e s1 \<rparr>)" by (rule gp(1))
    then have "good P ((s1\<lparr> input_w := input_e s1 \<rparr>)\<lparr> uart := u, wakeups := Suc (wakeups s1) \<rparr>)"
      by simp
    moreover have "s' = (s1\<lparr> input_w := input_e s1 \<rparr>)\<lparr> uart := u, wakeups := Suc (wakeups s1) \<rparr>"
      using True r by (simp add: s2)
    ultimately show ?thesis by simp
  next
    case False
    then have ne: "c' \<noteq> 10" by simp
    have "(\<forall>c. P c \<longrightarrow> c < 0x100) \<longrightarrow> stored c \<noteq> 10"
    proof
      assume "\<forall>c. P c \<longrightarrow> c < 0x100"
      with Pc have "c < 0x100" by simp
      then have "c' < 0x100" by (simp add: c'_def)
      with ne show "stored c \<noteq> 10" by (simp add: st [symmetric] int_to_char_byte_eq_10)
    qed
    then have "good P s1" by (rule gp(2))
    then have "good P (s1\<lparr> uart := u \<rparr>)" by simp
    with s2 False r show ?thesis by simp
  qed
qed

lemma erase_echo_good:
  assumes "good P s" "input_e s \<noteq> input_w s"
    and e: "consechoc BACKSPACE (s\<lparr> input_e := input_e s - 1 \<rparr>) = Some s'"
  shows "good P s'"
proof -
  from consechoc_Some [OF e] obtain u where "s' = s\<lparr> input_e := input_e s - 1, uart := u \<rparr>"
    by auto
  with good_erase [OF assms(1,2)] show ?thesis by simp
qed

lemma kill_line_good: "good P s \<Longrightarrow> kill_line s = Some s' \<Longrightarrow> good P s'"
proof (induction s rule: kill_line.induct)
  case (1 s)
  show ?case
  proof (cases "input_e s \<noteq> input_w s \<and>
         char_to_int (input_buf s ! slot (input_e s - 1)) \<noteq> chr CHR 0x0A")
    case False
    with "1.prems" show ?thesis by (auto simp add: kill_line.simps [of s])
  next
    case True
    with "1.prems"(2) obtain s2 where e: "consechoc BACKSPACE (s\<lparr> input_e := input_e s - 1 \<rparr>) = Some s2"
      and k: "kill_line s2 = Some s'"
      by (auto simp: kill_line.simps [of s] split: option.splits)
    from consechoc_Some [OF e] obtain u where s2: "s2 = s\<lparr> input_e := input_e s - 1, uart := u \<rparr>"
      by auto
    have "good P s2" using good_erase [OF "1.prems"(1)] True by (simp add: s2)
    with "1.IH" [OF True e] k show ?thesis by simp
  qed
qed

lemma kill_line_total: "\<not> panicked s \<Longrightarrow> \<exists>s'. kill_line s = Some s'"
proof (induction s rule: kill_line.induct)
  case (1 s)
  show ?case
  proof (cases "input_e s \<noteq> input_w s \<and>
         char_to_int (input_buf s ! slot (input_e s - 1)) \<noteq> chr CHR 0x0A")
    case False
    then show ?thesis by (auto simp add: kill_line.simps [of s])
  next
    case True
    from "1.prems" obtain s2 where e: "consechoc BACKSPACE (s\<lparr> input_e := input_e s - 1 \<rparr>) = Some s2"
      using consechoc_total [of "s\<lparr> input_e := input_e s - 1 \<rparr>"] by auto
    from consechoc_Some [OF e] obtain u where s2: "s2 = s\<lparr> input_e := input_e s - 1, uart := u \<rparr>"
      by auto
    have "\<not> panicked s2" using "1.prems" by (simp add: s2)
    from "1.IH" [OF True e this] show ?thesis using True e by (simp add: kill_line.simps [of s])
  qed
qed

lemma accumulate_total: "\<not> panicked s \<Longrightarrow> \<exists>s'. accumulate c s = Some s'"
  by (auto simp: accumulate_def Let_def consechoc_def consputc_def split: option.splits)

lemma consoleintr1_good: "good P s \<Longrightarrow> P c \<Longrightarrow> consoleintr1 c s = Some s' \<Longrightarrow> good P s'"
  by (auto simp: consoleintr1_def split: if_splits
      dest: accumulate_good kill_line_good erase_echo_good)

lemma consoleintr1_total: "\<not> panicked s \<Longrightarrow> \<exists>s'. consoleintr1 c s = Some s'"
  using kill_line_total [of s] accumulate_total [of s c]
    consechoc_total [of "s\<lparr> input_e := input_e s - 1 \<rparr>" BACKSPACE]
  by (auto simp: consoleintr1_def)

lemma consoleintr_good: "good P s \<Longrightarrow> list_all P codes \<Longrightarrow> consoleintr codes s = Some s' \<Longrightarrow> good P s'"
proof (induction codes arbitrary: s)
  case Nil
  then show ?case by simp
next
  case (Cons c codes)
  then show ?case
    by (auto split: if_splits option.splits dest: consoleintr1_good)
qed

lemma consoleintr_total: "good P s \<Longrightarrow> list_all P codes \<Longrightarrow> \<exists>s'. consoleintr codes s = Some s'"
proof (induction codes arbitrary: s)
  case Nil
  then show ?case by simp
next
  case (Cons c codes)
  show ?case
  proof (cases "c <s 0")
    case True
    then show ?thesis by simp
  next
    case False
    from Cons.prems have "\<not> panicked s" by (simp add: good_def)
    then obtain s1 where s1: "consoleintr1 c s = Some s1" using consoleintr1_total by blast
    with Cons.prems have "good P s1" by (auto dest: consoleintr1_good)
    from Cons.IH [OF this] Cons.prems(2) s1 False show ?thesis by simp
  qed
qed

lemma wake_good: "good P s \<Longrightarrow> list_all P (event_codes ev) \<Longrightarrow> wake ev s = Some s' \<Longrightarrow> good P s'"
  by (cases ev) (auto dest: consoleintr_good)

lemma await_good:
  "good P s \<Longrightarrow> list_all P (concat (map event_codes env)) \<Longrightarrow>
   (case await s env of
      Ready s' env' \<Rightarrow> good P s' \<and> list_all P (concat (map event_codes env')) \<and>
                       input_r s' \<noteq> input_w s'
    | Killed s' \<Rightarrow> good P s' \<and> killed s' \<and> input_r s' = input_w s'
    | Asleep s' \<Rightarrow> good P s')"
proof (induction env arbitrary: s)
  case Nil
  then show ?case by simp
next
  case (Cons ev env)
  show ?case
  proof (cases "input_r s = input_w s \<and> \<not> killed s")
    case False
    with Cons.prems show ?thesis by auto
  next
    case True
    show ?thesis
    proof (cases "wake ev s")
      case None
      with True Cons.prems show ?thesis by simp
    next
      case (Some s1)
      with Cons.prems have "good P s1" by (auto dest: wake_good)
      from Cons.IH [OF this] Cons.prems(2) True Some show ?thesis by simp
    qed
  qed
qed

lemma lflag_input_r [simp]: "lflag (s\<lparr> input_r := x \<rparr>) = lflag s"
  by (simp add: lflag_def)

lemma consoleread_loop_done:
  "\<not> 0 <s n \<Longrightarrow> consoleread_loop s n target dst env = Count s dst (target - n)"
  by (simp add: consoleread_loop.simps [of s n])

lemma consoleread_loop_killed:
  "0 <s n \<Longrightarrow> await s env = Killed s' \<Longrightarrow> consoleread_loop s n target dst env = Failure s'"
  by (simp add: consoleread_loop.simps [of s n])

lemma consoleread_loop_asleep:
  "0 <s n \<Longrightarrow> await s env = Asleep s' \<Longrightarrow> consoleread_loop s n target dst env = Blocked s'"
  by (simp add: consoleread_loop.simps [of s n])

lemma consoleread_loop_eof:
  "0 <s n \<Longrightarrow> await s env = Ready s' env' \<Longrightarrow> input_buf s' ! slot (input_r s') = 4 \<Longrightarrow>
   lflag s' AND ICANON \<noteq> 0 \<Longrightarrow>
   consoleread_loop s n target dst env =
     Count (if n < target then s' else s'\<lparr> input_r := input_r s' + 1 \<rparr>) dst (target - n)"
  by (simp add: consoleread_loop.simps [of s n] Let_def)

lemma consoleread_loop_newline:
  "0 <s n \<Longrightarrow> await s env = Ready s' env' \<Longrightarrow> input_buf s' ! slot (input_r s') = 10 \<Longrightarrow>
   lflag s' AND ICANON \<noteq> 0 \<Longrightarrow>
   consoleread_loop s n target dst env =
     Count (s'\<lparr> input_r := input_r s' + 1 \<rparr>) (dst @ [10]) (target - (n - 1))"
  by (simp add: consoleread_loop.simps [of s n] Let_def)

lemma consoleread_loop_next:
  "0 <s n \<Longrightarrow> await s env = Ready s' env' \<Longrightarrow> b = input_buf s' ! slot (input_r s') \<Longrightarrow>
   \<not> (b = 4 \<and> lflag s' AND ICANON \<noteq> 0) \<Longrightarrow> \<not> (b = 10 \<and> lflag s' AND ICANON \<noteq> 0) \<Longrightarrow>
   consoleread_loop s n target dst env =
     consoleread_loop (s'\<lparr> input_r := input_r s' + 1 \<rparr>) (n - 1) target (dst @ [b]) env'"
  by (auto simp add: consoleread_loop.simps [of s n] Let_def)

lemma consoleread_loop_good:
  "good P s \<Longrightarrow> list_all P (concat (map event_codes env)) \<Longrightarrow>
   good P (final (consoleread_loop s n target dst env))"
proof (induction s n target dst env rule: consoleread_loop.induct)
  case (1 s n target dst env)
  show ?case
  proof (cases "0 <s n")
    case False
    with "1.prems" show ?thesis by (simp add: consoleread_loop_done)
  next
    case pos: True
    note aw = await_good [OF "1.prems"]
    show ?thesis
    proof (cases "await s env")
      case (Killed s')
      with aw pos show ?thesis by (simp add: consoleread_loop_killed)
    next
      case (Asleep s')
      with aw pos show ?thesis by (simp add: consoleread_loop_asleep)
    next
      case (Ready s' env')
      with aw have g: "good P s'" and l: "list_all P (concat (map event_codes env'))"
        and ne: "input_r s' \<noteq> input_w s'" by simp_all
      define b where "b = input_buf s' ! slot (input_r s')"
      define s1 where "s1 = s'\<lparr> input_r := input_r s' + 1 \<rparr>"
      have g1: "good P s1" unfolding s1_def using g ne by (rule good_pop)
      consider (eof) "b = 4" "lflag s' AND ICANON \<noteq> 0"
        | (nl) "b = 10" "lflag s' AND ICANON \<noteq> 0"
        | (more) "\<not> (b = 4 \<and> lflag s' AND ICANON \<noteq> 0)" "\<not> (b = 10 \<and> lflag s' AND ICANON \<noteq> 0)"
        by blast
      then show ?thesis
      proof cases
        case eof
        then show ?thesis
          using consoleread_loop_eof [OF pos Ready, of target dst] g g1
          by (simp add: b_def s1_def)
      next
        case nl
        then show ?thesis
          using consoleread_loop_newline [OF pos Ready, of target dst] g1
          by (simp add: b_def s1_def)
      next
        case more
        have "good P (final (consoleread_loop s1 (n - 1) target (dst @ [int_to_char (char_to_int b)]) env'))"
          using "1.IH" [OF pos Ready refl s1_def _ _ g1 l] more
          by (simp add: b_def s1_def)
        then show ?thesis
          using consoleread_loop_next [OF pos Ready b_def more, of target dst]
          by (simp add: s1_def)
      qed
    qed
  qed
qed

lemma consoleread_good:
  "good P s \<Longrightarrow> list_all P (concat (map event_codes env)) \<Longrightarrow>
   good P (final (consoleread n env s))"
  by (simp add: consoleread_def consoleread_loop_good)

lemma only_uart_refl [simp]: "only_uart s s"
  by (simp add: only_uart_def)

lemma only_uart_trans: "only_uart s s1 \<Longrightarrow> only_uart s1 s2 \<Longrightarrow> only_uart s s2"
  unfolding only_uart_def by (metis kernel.surjective kernel.update_convs(7) kernel.select_convs)

lemma good_only_uart: "only_uart s s' \<Longrightarrow> good P s' = good P s"
  unfolding only_uart_def by (metis good_irrelevant(1))

lemma consputc_only_uart: "consputc c s = Some s' \<Longrightarrow> only_uart s s'"
  by (auto simp: consputc_def uartputc_def only_uart_def split: if_splits)

lemma putcs_only_uart: "putcs cs s = Some s' \<Longrightarrow> only_uart s s'"
proof (induction cs arbitrary: s)
  case Nil
  then show ?case by simp
next
  case (Cons c cs)
  then obtain s1 where a: "consputc c s = Some s1" and b: "putcs cs s1 = Some s'"
    by (auto split: option.splits)
  from consputc_only_uart [OF a] Cons.IH [OF b] show ?case by (rule only_uart_trans)
qed

lemma printint_only_uart: "printint xx base sign s = Some s' \<Longrightarrow> only_uart s s'"
  unfolding printint_def Let_def
  by (auto simp del: putcs.simps split: option.splits if_splits intro: putcs_only_uart)

lemma conversion_only_uart: "conversion mem c args s = Some (args', s') \<Longrightarrow> only_uart s s'"
  unfolding conversion_def
  by (auto simp del: putcs.simps split: if_splits list.splits
      intro: putcs_only_uart printint_only_uart consputc_only_uart)

lemma cprintf_loop_only_uart: "cprintf_loop mem fmt args s = Some s' \<Longrightarrow> only_uart s s'"
proof (induction mem fmt args s rule: cprintf_loop.induct)
  case (1 mem args s)
  then show ?case by simp
next
  case (2 mem b args s)
  then show ?case by (auto simp: Let_def split: if_splits intro: consputc_only_uart)
next
  case (3 mem b b' fmt args s)
  define c where "c = char_to_int b AND 0xff"
  define c' where "c' = char_to_int b' AND 0xff"
  consider (stop) "c = 0 \<or> (c = chr CHR ''%'' \<and> c' = 0)"
    | (lit) "c \<noteq> 0" "c \<noteq> chr CHR ''%''"
    | (conv) "c = chr CHR ''%''" "c' \<noteq> 0"
    by auto
  then show ?case
  proof cases
    case stop
    with "3.prems" show ?thesis by (auto simp: Let_def c_def c'_def)
  next
    case lit
    with "3.prems" obtain s1 where a: "consputc c s = Some s1"
      and b: "cprintf_loop mem (b' # fmt) args s1 = Some s'"
      by (auto simp: Let_def c_def split: option.splits)
    from "3.IH"(1) [OF c_def _ _ a b] lit consputc_only_uart [OF a]
    show ?thesis by (auto intro: only_uart_trans)
  next
    case conv
    with "3.prems" obtain args1 s1 where a: "conversion mem c' args s = Some (args1, s1)"
      and b: "cprintf_loop mem fmt args1 s1 = Some s'"
      by (auto simp: Let_def c_def c'_def split: option.splits)
    have "only_uart s1 s'"
      using "3.IH"(2) [OF c_def _ _ c'_def _ a refl b] conv
      by auto
    with conversion_only_uart [OF a] show ?thesis by (rule only_uart_trans)
  qed
qed

lemma good_boot: "good P boot"
  by (simp add: good_def boot_def cursors_ok_def unread_def pending_def INPUT_BUF_def)

lemma good_consoleinit [simp]: "good P (consoleinit s) = good P s"
  by (simp add: consoleinit_def)

lemma consoleioctl_good: "good P s \<Longrightarrow> good P (fst (consoleioctl req termios_p s))"
  by (simp add: consoleioctl_def split: option.splits)

lemma consolewrite_good: "good P s \<Longrightarrow> consolewrite buf s = Some (s', v) \<Longrightarrow> good P s'"
  by (auto simp: consolewrite_def split: option.splits dest!: putcs_only_uart good_only_uart)

lemma cprintf_good: "good P s \<Longrightarrow> cprintf mem fmt args s = Some s' \<Longrightarrow> good P s'"
  by (auto simp: cprintf_def panic_def split: option.splits
      dest!: cprintf_loop_only_uart good_only_uart)

lemma reachable_good: "reachable P s \<Longrightarrow> good P s"
proof (induction rule: reachable.induct)
  case at_boot
  show ?case by (rule good_boot)
next
  case (by_init s)
  then show ?case by simp
next
  case (by_intr s codes s')
  then show ?case by (auto dest: consoleintr_good)
next
  case (by_read s env n)
  then show ?case by (simp add: consoleread_good)
next
  case (by_ioctl s req termios_p)
  then show ?case by (simp add: consoleioctl_good)
next
  case (by_write s buf s' v)
  then show ?case by (auto dest: consolewrite_good)
next
  case (by_cprintf s mem fmt args s')
  then show ?case by (auto dest: cprintf_good)
next
  case (by_sched s k)
  then show ?case by simp
qed

lemma same_reader_refl [simp]: "same_reader s s"
  by (simp add: same_reader_def)

lemma same_reader_trans: "same_reader s s1 \<Longrightarrow> same_reader s1 s2 \<Longrightarrow> same_reader s s2"
  by (simp add: same_reader_def)

lemma same_reader_updates [simp]:
  "same_reader s (t\<lparr> input_buf := b \<rparr>) = same_reader s t"
  "same_reader s (t\<lparr> input_e := x \<rparr>) = same_reader s t"
  "same_reader s (t\<lparr> input_w := x \<rparr>) = same_reader s t"
  "same_reader s (t\<lparr> uart := u \<rparr>) = same_reader s t"
  "same_reader s (t\<lparr> wakeups := n \<rparr>) = same_reader s t"
  "same_reader s (t\<lparr> procdumps := n \<rparr>) = same_reader s t"
  "same_reader (s\<lparr> input_buf := b \<rparr>) t = same_reader s t"
  "same_reader (s\<lparr> input_e := x \<rparr>) t = same_reader s t"
  "same_reader (s\<lparr> input_w := x \<rparr>) t = same_reader s t"
  "same_reader (s\<lparr> uart := u \<rparr>) t = same_reader s t"
  "same_reader (s\<lparr> wakeups := n \<rparr>) t = same_reader s t"
  "same_reader (s\<lparr> procdumps := n \<rparr>) t = same_reader s t"
  by (simp_all add: same_reader_def)

lemma consechoc_same_reader: "consechoc c s = Some s' \<Longrightarrow> same_reader s s'"
  by (auto simp: consechoc_def consputc_def uartputc_def split: if_splits)

lemma accumulate_same_reader: "accumulate c s = Some s' \<Longrightarrow> same_reader s s'"
  by (auto simp: accumulate_def Let_def split: if_splits option.splits
      dest!: consechoc_same_reader)

lemma kill_line_same_reader: "kill_line s = Some s' \<Longrightarrow> same_reader s s'"
proof (induction s rule: kill_line.induct)
  case (1 s)
  show ?case
  proof (cases "input_e s \<noteq> input_w s \<and>
         char_to_int (input_buf s ! slot (input_e s - 1)) \<noteq> chr CHR 0x0A")
    case False
    with "1.prems" show ?thesis by (auto simp add: kill_line.simps [of s])
  next
    case True
    with "1.prems" obtain s2 where e: "consechoc BACKSPACE (s\<lparr> input_e := input_e s - 1 \<rparr>) = Some s2"
      and k: "kill_line s2 = Some s'"
      by (auto simp: kill_line.simps [of s] split: option.splits)
    from consechoc_same_reader [OF e] have "same_reader s s2" by simp
    with "1.IH" [OF True e k] show ?thesis by (blast intro: same_reader_trans)
  qed
qed

lemma consoleintr1_same_reader: "consoleintr1 c s = Some s' \<Longrightarrow> same_reader s s'"
  by (auto simp: consoleintr1_def split: if_splits
      dest: accumulate_same_reader kill_line_same_reader dest!: consechoc_same_reader)

lemma consoleintr_same_reader: "consoleintr codes s = Some s' \<Longrightarrow> same_reader s s'"
proof (induction codes arbitrary: s)
  case Nil
  then show ?case by simp
next
  case (Cons c codes)
  then show ?case
    by (auto split: if_splits option.splits
        dest!: consoleintr1_same_reader intro: same_reader_trans)
qed

lemma length_unread: "length (unread s) = unat (input_e s - input_r s)"
  by (simp add: unread_def span_def)

lemma accumulate_full: "input_e s - input_r s = INPUT_BUF \<Longrightarrow> accumulate c s = Some s"
  by (simp add: accumulate_def)

lemma full_window_pushed: "consoleintr (replicate 128 97) (consoleinit boot) = Some full_window"
  by code_simp

section \<open>The cursors\<close>

text \<open>
  C1. In every state reachable from the initial state by the operations of the console
  (batches of \<open>consoleintr\<close>, calls of \<open>consoleread\<close>, and the others), whatever the raw
  codes, the cursors satisfy R \<le> W \<le> E and E - R \<le> 128, the comparisons taken modulo
  \<open>2 ^ 32\<close> as distances from R. The unread data never exceeds 128 bytes: when the window
  is full the accumulation step leaves the state untouched (the code is dropped), and any
  further batch of codes, with no read in between, returns with R where it was and the
  window still within 128 bytes.
\<close>

theorem cursors_invariant:
  "reachable P s \<Longrightarrow>
     input_w s - input_r s \<le> input_e s - input_r s \<and>
     input_e s - input_r s \<le> INPUT_BUF \<and>
     length (unread s) \<le> 128 \<and>
     (input_e s - input_r s = INPUT_BUF \<longrightarrow> accumulate c s = Some s) \<and>
     (list_all P codes \<longrightarrow>
        (\<exists>s'. consoleintr codes s = Some s' \<and> input_r s' = input_r s \<and>
              input_e s' - input_r s' \<le> INPUT_BUF \<and> length (unread s') \<le> 128))"
proof -
  assume r: "reachable P s"
  then have g: "good P s" by (rule reachable_good)
  then have c: "cursors_ok s" by (simp add: good_def)
  have le: "length (unread t) \<le> 128" if "cursors_ok t" for t
    using that by (simp add: length_unread cursors_ok_def INPUT_BUF_def word_le_nat_alt)
  have push: "\<exists>s'. consoleintr codes s = Some s' \<and> input_r s' = input_r s \<and>
              input_e s' - input_r s' \<le> INPUT_BUF \<and> length (unread s') \<le> 128"
    if l: "list_all P codes"
  proof -
    from consoleintr_total [OF g l] obtain s' where s': "consoleintr codes s = Some s'" ..
    from consoleintr_good [OF g l s'] have "cursors_ok s'" by (simp add: good_def)
    with s' consoleintr_same_reader [OF s'] le show ?thesis
      by (simp add: same_reader_def cursors_ok_def)
  qed
  from c le push show ?thesis
    by (simp add: cursors_ok_def accumulate_full)
qed

theorem cursors_invariant_witness:
  "reachable (\<lambda>c. True) full_window \<and>
   input_w full_window - input_r full_window \<le> input_e full_window - input_r full_window \<and>
   input_e full_window - input_r full_window = INPUT_BUF \<and>
   accumulate 97 full_window = Some full_window \<and>
   list_all (\<lambda>c. True) [98, 99 :: cint] \<and>
   consoleintr [98, 99] full_window = Some full_window"
proof -
  have r: "reachable (\<lambda>c. True) full_window"
    by (rule reachable.by_intr [OF reachable.by_init [OF reachable.at_boot] _ full_window_pushed])
      (simp add: list_all_iff)
  have f: "input_e full_window - input_r full_window = INPUT_BUF"
    by (simp add: full_window_def INPUT_BUF_def)
  have l: "list_all (\<lambda>c. True) [98, 99 :: cint]" by simp
  have i: "consoleintr [98, 99] full_window = Some full_window"
    by code_simp
  from cursors_invariant [OF r, of 97 "[98, 99]"] r f l i show ?thesis by simp
qed

section \<open>When the general accumulation is skipped\<close>

text \<open>
  C4, as the code has it. The test of line 134 is \<open>c != 0 && input.e-input.r < INPUT_BUF\<close>:
  the general accumulation leaves the state as it is exactly when the code is the NUL byte
  or the window is full. A NUL byte is therefore never stored, also when the window has
  room.
\<close>

theorem accumulate_skipped_iff:
  "accumulate c s = Some s \<longleftrightarrow> (c = 0 \<or> INPUT_BUF \<le> input_e s - input_r s)"
proof (cases "c \<noteq> 0 \<and> input_e s - input_r s < INPUT_BUF")
  case False
  then show ?thesis by (auto simp: accumulate_def)
next
  case True
  have "input_e s' = input_e s + 1" if "accumulate c s = Some s'" for s'
    using that True
    by (auto simp: accumulate_def Let_def split: option.splits if_splits
        dest: consechoc_input_e)
  then have "accumulate c s \<noteq> Some s"
    by fastforce
  with True show ?thesis by auto
qed

theorem accumulate_skipped_iff_witness:
  "accumulate 0 (consoleinit boot) = Some (consoleinit boot)"
  using accumulate_skipped_iff [of 0 "consoleinit boot"] by simp

text \<open>
  C4 as the claim words it (skipped exactly when the code is NUL and the window is full)
  fails on the state after \<open>consoleinit\<close>: the window is empty, and the NUL byte is skipped
  all the same.
\<close>

theorem nul_with_room_counterexample:
  "\<not> ((accumulate 0 (consoleinit boot) = Some (consoleinit boot)) \<longleftrightarrow>
      ((0 :: cint) = 0 \<and> input_e (consoleinit boot) - input_r (consoleinit boot) = INPUT_BUF))"
  by (simp add: accumulate_def consoleinit_def boot_def INPUT_BUF_def)

section \<open>What consoleread returns\<close>



lemma sint_pred: "0 < sint (n::cint) \<Longrightarrow> sint (n - 1) = sint n - 1"
proof -
  assume a: "0 < sint n"
  have "sint n < 2 ^ 31" using sint_lt [of n] by simp
  with a have "signed_take_bit 31 (sint n - 1) = sint n - 1"
    by (intro signed_take_bit_int_eq_self) auto
  then show ?thesis by (simp add: sint_word_ariths)
qed

lemma sint_of_nat_small: "k < 2 ^ 31 \<Longrightarrow> sint (word_of_nat k :: cint) = int k"
proof -
  assume "k < 2 ^ 31"
  then have "int k < 2 ^ 31" by (metis of_nat_less_iff of_nat_numeral of_nat_power)
  then have "signed_take_bit 31 (int k) = int k"
    by (intro signed_take_bit_int_eq_self) auto
  then show ?thesis by (simp add: signed_of_nat)
qed





section \<open>End of input\<close>

lemma wake_frame:
  "wake ev s = Some t \<Longrightarrow> input_r t = input_r s \<and> cons_termios t = cons_termios s"
  by (cases ev) (auto dest: consoleintr_same_reader simp: same_reader_def)

lemma await_Ready_frame:
  "await s env = Ready t env' \<Longrightarrow>
   input_r t = input_r s \<and> cons_termios t = cons_termios s \<and> (env = [] \<longrightarrow> t = s \<and> env' = [])"
proof (induction env arbitrary: s)
  case Nil
  then show ?case by (simp split: if_splits)
next
  case (Cons ev env)
  show ?case
  proof (cases "input_r s = input_w s")
    case False
    with Cons.prems show ?thesis by simp
  next
    case True
    with Cons.prems obtain s1 where w: "wake ev s = Some s1" and a: "await s1 env = Ready t env'"
      by (auto split: if_splits option.splits)
    from Cons.IH [OF a] wake_frame [OF w] show ?thesis by simp
  qed
qed

lemma await_Ready: "input_r s \<noteq> input_w s \<Longrightarrow> await s env = Ready s env"
  by (cases env) simp_all

lemma committed_Cons:
  "committed s = b # bs \<Longrightarrow>
   input_r s \<noteq> input_w s \<and> b = input_buf s ! slot (input_r s) \<and>
   committed (s\<lparr> input_r := input_r s + 1 \<rparr>) = bs"
proof -
  assume a: "committed s = b # bs"
  then have ne: "input_w s \<noteq> input_r s" by (auto simp: committed_def)
  from span_Cons [OF ne, of "input_buf s"] a show ?thesis
    using ne by (auto simp: committed_def)
qed

lemma consoleread_loop_prefix:
  "committed s = bs @ rest \<Longrightarrow> lflag s AND ICANON \<noteq> 0 \<Longrightarrow> 4 \<notin> set bs \<Longrightarrow> 10 \<notin> set bs \<Longrightarrow>
   int (length bs) < sint n \<Longrightarrow>
   consoleread_loop s n target dst env =
     consoleread_loop (s\<lparr> input_r := input_r s + word_of_nat (length bs) \<rparr>)
       (n - word_of_nat (length bs)) target (dst @ bs) env"
proof (induction bs arbitrary: s n dst)
  case Nil
  then show ?case by simp
next
  case (Cons b bs)
  from Cons.prems(1) have c: "committed s = b # (bs @ rest)" by simp
  note cc = committed_Cons [OF c]
  from Cons.prems(5) have sp: "0 < sint n" by simp
  then have pos: "0 <s n" by (simp add: word_sless_alt)
  let ?s1 = "s\<lparr> input_r := input_r s + 1 \<rparr>"
  have step: "consoleread_loop s n target dst env = consoleread_loop ?s1 (n - 1) target (dst @ [b]) env"
    using consoleread_loop_next [OF pos await_Ready, of s b target dst env] cc Cons.prems(3,4)
    by auto
  have "consoleread_loop ?s1 (n - 1) target (dst @ [b]) env =
        consoleread_loop (?s1\<lparr> input_r := input_r ?s1 + word_of_nat (length bs) \<rparr>)
          (n - 1 - word_of_nat (length bs)) target ((dst @ [b]) @ bs) env"
    using Cons.prems cc sp by (intro Cons.IH) (auto simp: sint_pred lflag_def)
  with step show ?case by (simp add: add.assoc diff_diff_eq)
qed

lemma uint_eq_sint: "0 \<le> sint (x::cint) \<Longrightarrow> uint x = sint x"
proof -
  assume a: "0 \<le> sint x"
  have "sint x < 2 ^ 31" using sint_lt [of x] by simp
  then have "sint x < 2 ^ 32" by simp
  with a have "take_bit 32 (sint x) = sint x" by (intro take_bit_int_eq_self) auto
  then show ?thesis by (simp add: uint_sint)
qed

lemma quota_left:
  fixes n :: cint
  assumes "0 < k" "int k < sint n"
  shows "0 <s n - word_of_nat k" and "n - word_of_nat k < n"
proof -
  have lt: "sint n < 2 ^ 31" using sint_lt [of n] by simp
  with assms have k: "sint (word_of_nat k :: cint) = int k"
    by (intro sint_of_nat_small) (simp add: nat_less_iff [symmetric] flip: of_nat_less_iff)
  have "signed_take_bit 31 (sint n - int k) = sint n - int k"
    using assms lt by (intro signed_take_bit_int_eq_self) auto
  then have d: "sint (n - word_of_nat k) = sint n - int k"
    using k by (simp add: sint_word_ariths)
  with assms show "0 <s n - word_of_nat k" by (simp add: word_sless_alt)
  have "uint (n - word_of_nat k) = sint n - int k"
    using d assms uint_eq_sint [of "n - word_of_nat k"] by simp
  moreover have "uint n = sint n" using assms uint_eq_sint [of n] by simp
  ultimately show "n - word_of_nat k < n" using assms by (simp add: word_less_def)
qed

lemma committed_append:
  "committed s = bs @ rest \<Longrightarrow>
   committed (s\<lparr> input_r := input_r s + word_of_nat (length bs) \<rparr>) = rest"
proof (induction bs arbitrary: s)
  case Nil
  then show ?case by simp
next
  case (Cons b bs)
  then have "committed s = b # (bs @ rest)" by simp
  from committed_Cons [OF this] have "committed (s\<lparr> input_r := input_r s + 1 \<rparr>) = bs @ rest" by simp
  from Cons.IH [OF this] show ?case by (simp add: add.assoc)
qed

lemma consoleread_eof_first:
  assumes "0 <s n" "input_r s \<noteq> input_w s" "input_buf s ! slot (input_r s) = 4"
    "lflag s AND ICANON \<noteq> 0"
  shows "consoleread n env s = Count (s\<lparr> input_r := input_r s + 1 \<rparr>) [] 0"
  using consoleread_loop_eof [OF assms(1) await_Ready [OF assms(2)] assms(3,4), of n "[]" env]
  by (simp add: consoleread_def)

lemma consoleread_eof_deferred:
  assumes can: "lflag s AND ICANON \<noteq> 0" and c: "committed s = bs @ 4 # rest" and ne: "bs \<noteq> []"
    and no: "4 \<notin> set bs" "10 \<notin> set bs" and q: "int (length bs) < sint n"
  shows "consoleread n env s =
     Count (s\<lparr> input_r := input_r s + word_of_nat (length bs) \<rparr>) bs (word_of_nat (length bs))"
proof -
  let ?k = "word_of_nat (length bs) :: cint"
  let ?s = "s\<lparr> input_r := input_r s + ?k \<rparr>"
  from ne have k: "0 < length bs" by simp
  note ql = quota_left [OF k q]
  have "committed ?s = 4 # rest" using committed_append [OF c] .
  from committed_Cons [OF this] have r: "input_r ?s \<noteq> input_w ?s" "input_buf ?s ! slot (input_r ?s) = 4"
    by simp_all
  have can': "lflag ?s AND ICANON \<noteq> 0" using can by (simp add: lflag_def)
  have "consoleread n env s = consoleread_loop ?s (n - ?k) n ([] @ bs) env"
    unfolding consoleread_def using c can no q by (intro consoleread_loop_prefix) auto
  also have "\<dots> = Count ?s bs (n - (n - ?k))"
    using consoleread_loop_eof [OF ql(1) await_Ready [OF r(1)] r(2) can', of n bs env] ql(2)
    by simp
  finally show ?thesis by simp
qed

lemma after_ab_eof_pushed:
  "consoleintr [chr CHR ''a'', chr CHR ''b'', C CHR ''D''] (consoleinit boot) = Some after_ab_eof"
  by code_simp

lemma after_ab_eof_facts:
  "lflag after_ab_eof AND ICANON \<noteq> 0" "committed after_ab_eof = cstr ''ab'' @ 4 # []"
  "lflag (after_ab_eof\<lparr> input_r := 2 \<rparr>) AND ICANON \<noteq> 0"
  "input_r (after_ab_eof\<lparr> input_r := 2 \<rparr>) \<noteq> input_w (after_ab_eof\<lparr> input_r := 2 \<rparr>)"
  "input_buf (after_ab_eof\<lparr> input_r := 2 \<rparr>) ! slot (input_r (after_ab_eof\<lparr> input_r := 2 \<rparr>)) = 4"
  by code_simp+

lemma in_call_start: "0 \<le> sint n \<Longrightarrow> in_call n n []"
  by (simp add: in_call_def)

lemma in_call_step: "in_call n target dst \<Longrightarrow> 0 <s n \<Longrightarrow> in_call (n - 1) target (dst @ [b])"
  by (simp add: in_call_def word_sless_alt sint_pred)

lemma in_call_delivered:
  assumes "in_call n target dst" "0 <s n"
  shows "n < target \<longleftrightarrow> dst \<noteq> []" and "target - n = word_of_nat (length dst)"
proof -
  from assms have n: "0 < sint n" and t: "sint target = sint n + int (length dst)"
    by (simp_all add: in_call_def word_sless_alt)
  then have "0 \<le> sint target" by simp
  with n have u: "uint n = sint n" "uint target = sint target"
    using uint_eq_sint [of n] uint_eq_sint [of target] by simp_all
  with t show "n < target \<longleftrightarrow> dst \<noteq> []" by (simp add: word_less_def)
  have "word_of_int (sint target) = (word_of_int (sint n + int (length dst)) :: cint)"
    using t by simp
  then have "target = n + word_of_nat (length dst)" by simp
  then show "target - n = word_of_nat (length dst)" by simp
qed

lemma consoleread_loop_eof_rule:
  assumes ic: "in_call n target dst" and pos: "0 <s n" and aw: "await s env = Ready t env'"
    and eof: "input_buf t ! slot (input_r t) = 4" and can: "lflag t AND ICANON \<noteq> 0"
  shows "consoleread_loop s n target dst env =
     Count (if dst = [] then t\<lparr> input_r := input_r t + 1 \<rparr> else t) dst (word_of_nat (length dst))"
  using consoleread_loop_eof [OF pos aw eof can, of target dst] in_call_delivered [OF ic pos]
  by simp

lemma consoleread_then_eof:
  assumes can: "lflag s AND ICANON \<noteq> 0" and c: "committed s = bs @ rest"
    and no: "4 \<notin> set bs" "10 \<notin> set bs" and q: "int (length bs) < sint n"
    and aw: "await (s\<lparr> input_r := input_r s + word_of_nat (length bs) \<rparr>) env = Ready t env'"
    and eof: "input_buf t ! slot (input_r t) = 4"
  shows "consoleread n env s =
     Count (if bs = [] then t\<lparr> input_r := input_r t + 1 \<rparr> else t) bs (word_of_nat (length bs))"
proof -
  let ?k = "word_of_nat (length bs) :: cint"
  let ?s = "s\<lparr> input_r := input_r s + ?k \<rparr>"
  have lt: "sint n < 2 ^ 31" using sint_lt [of n] by simp
  have sk: "sint ?k = int (length bs)"
    using q lt by (intro sint_of_nat_small) (simp add: nat_less_iff [symmetric] flip: of_nat_less_iff)
  have "signed_take_bit 31 (sint n - int (length bs)) = sint n - int (length bs)"
    using q lt by (intro signed_take_bit_int_eq_self) auto
  then have d: "sint (n - ?k) = sint n - int (length bs)"
    using sk by (simp add: sint_word_ariths)
  with q have pos: "0 <s n - ?k" by (simp add: word_sless_alt)
  from d q have ic: "in_call (n - ?k) n ([] @ bs)" by (simp add: in_call_def)
  from await_Ready_frame [OF aw] can have cant: "lflag t AND ICANON \<noteq> 0" by (simp add: lflag_def)
  have "consoleread n env s = consoleread_loop ?s (n - ?k) n ([] @ bs) env"
    unfolding consoleread_def using c can no q by (intro consoleread_loop_prefix) auto
  also have "\<dots> = Count (if [] @ bs = [] then t\<lparr> input_r := input_r t + 1 \<rparr> else t) ([] @ bs)
      (word_of_nat (length ([] @ bs)))"
    using ic pos aw eof cant by (rule consoleread_loop_eof_rule)
  finally show ?thesis by simp
qed

lemma woken_by_eof_facts:
  "await (consoleinit boot) [Intr [C CHR ''D'']] = Ready woken_by_eof []"
  "input_buf woken_by_eof ! slot (input_r woken_by_eof) = 4"
  "lflag woken_by_eof AND ICANON \<noteq> 0"
  "lflag (consoleinit boot) AND ICANON \<noteq> 0"
  "committed (consoleinit boot) = [] @ []"
  by code_simp+

lemma full_then_eof_facts:
  "lflag full_window AND ICANON \<noteq> 0"
  "committed full_window = replicate 128 97 @ []"
  "await (full_window\<lparr> input_r := input_r full_window + word_of_nat (length (replicate 128 (97 :: cchar))) \<rparr>)
     [Intr [C CHR ''D'']] = Ready full_then_eof []"
  "input_buf full_then_eof ! slot (input_r full_then_eof) = 4"
  by code_simp+

text \<open>
  C2. In canonical mode, at any turn of the loop of a call, after the wait of lines 157 to
  164 (whether the reader slept there or not): when the code dequeued is the EOF code, the
  call stops and returns the bytes delivered so far; if at least one byte was delivered in
  this call, R is rewound by one and stays on the EOF code; if none was, R moves past it
  and the call returns 0 bytes. For a whole call: it delivers the committed bytes \<open>bs\<close>
  (none of them a line terminator or the EOF code), waits, and when the next code is the
  EOF code it returns \<open>bs\<close> with R on the EOF code, or past it when \<open>bs\<close> is empty. After
  the codes \<open>a\<close>, \<open>b\<close>, Ctrl-D, a read of 10 returns exactly \<open>ab\<close>, and the read after
  it, of any length of at least one, returns 0 bytes. A reader asleep on the empty buffer
  that is woken by Ctrl-D returns 0 bytes; a reader that has taken the 128 bytes of a full
  window and is then woken by Ctrl-D returns the 128 bytes and leaves R on the EOF code.
\<close>

theorem eof_deferral:
  "(in_call n target dst \<and> 0 <s n \<and> await s env = Ready t env' \<and>
    input_buf t ! slot (input_r t) = 4 \<and> lflag t AND ICANON \<noteq> 0 \<longrightarrow>
      consoleread_loop s n target dst env =
        Count (if dst = [] then t\<lparr> input_r := input_r t + 1 \<rparr> else t) dst
          (word_of_nat (length dst))) \<and>
   (0 \<le> sint n \<longrightarrow> in_call n n []) \<and>
   (in_call n target dst \<and> 0 <s n \<longrightarrow> in_call (n - 1) target (dst @ [b])) \<and>
   (lflag s AND ICANON \<noteq> 0 \<and> committed s = bs @ rest \<and> 4 \<notin> set bs \<and> 10 \<notin> set bs \<and>
    int (length bs) < sint n \<and>
    await (s\<lparr> input_r := input_r s + word_of_nat (length bs) \<rparr>) env = Ready t env' \<and>
    input_buf t ! slot (input_r t) = 4 \<longrightarrow>
      consoleread n env s =
        Count (if bs = [] then t\<lparr> input_r := input_r t + 1 \<rparr> else t) bs
          (word_of_nat (length bs))) \<and>
   (lflag s AND ICANON \<noteq> 0 \<and> committed s = bs @ 4 # rest \<and> bs \<noteq> [] \<and> 4 \<notin> set bs \<and>
    10 \<notin> set bs \<and> int (length bs) < sint n \<longrightarrow>
      consoleread n env s =
        Count (s\<lparr> input_r := input_r s + word_of_nat (length bs) \<rparr>) bs
          (word_of_nat (length bs))) \<and>
   (lflag s AND ICANON \<noteq> 0 \<and> 0 <s n \<and> input_r s \<noteq> input_w s \<and>
    input_buf s ! slot (input_r s) = 4 \<longrightarrow>
      consoleread n env s = Count (s\<lparr> input_r := input_r s + 1 \<rparr>) [] 0) \<and>
   consoleintr [chr CHR ''a'', chr CHR ''b'', C CHR ''D''] (consoleinit boot) = Some after_ab_eof \<and>
   consoleread 10 [] after_ab_eof = Count (after_ab_eof\<lparr> input_r := 2 \<rparr>) (cstr ''ab'') 2 \<and>
   (0 <s m \<longrightarrow>
      consoleread m [] (after_ab_eof\<lparr> input_r := 2 \<rparr>) =
        Count (after_ab_eof\<lparr> input_r := 3 \<rparr>) [] 0) \<and>
   consoleread 10 [Intr [C CHR ''D'']] (consoleinit boot) =
     Count (woken_by_eof\<lparr> input_r := 1 \<rparr>) [] 0 \<and>
   consoleread 200 [Intr [C CHR ''D'']] full_window = Count full_then_eof (replicate 128 97) 128"
proof -
  have first: "consoleread 10 [] after_ab_eof = Count (after_ab_eof\<lparr> input_r := 2 \<rparr>) (cstr ''ab'') 2"
    using consoleread_eof_deferred [OF after_ab_eof_facts(1,2), of 10 "[]"]
    by (simp add: cstr_def after_ab_eof_def)
  have second: "consoleread m [] (after_ab_eof\<lparr> input_r := 2 \<rparr>) =
        Count (after_ab_eof\<lparr> input_r := 3 \<rparr>) [] 0" if "0 <s m"
    using consoleread_eof_first [OF that after_ab_eof_facts(4,5,3), of "[]"]
    by simp
  have third: "consoleread 10 [Intr [C CHR ''D'']] (consoleinit boot) =
     Count (woken_by_eof\<lparr> input_r := 1 \<rparr>) [] 0"
    using consoleread_then_eof [OF woken_by_eof_facts(4,5) _ _ _ _ woken_by_eof_facts(2),
        of 10 "[Intr [C CHR ''D'']]" "[]"] woken_by_eof_facts(1)
    by (simp add: woken_by_eof_def consoleinit_def boot_def)
  have fourth: "consoleread 200 [Intr [C CHR ''D'']] full_window =
     Count full_then_eof (replicate 128 97) 128"
    using consoleread_then_eof [OF full_then_eof_facts(1,2) _ _ _ full_then_eof_facts(3,4), of 200]
    by simp
  have g1: "in_call n target dst \<and> 0 <s n \<and> await s env = Ready t env' \<and>
    input_buf t ! slot (input_r t) = 4 \<and> lflag t AND ICANON \<noteq> 0 \<longrightarrow>
      consoleread_loop s n target dst env =
        Count (if dst = [] then t\<lparr> input_r := input_r t + 1 \<rparr> else t) dst
          (word_of_nat (length dst))"
    using consoleread_loop_eof_rule [of n target dst s env t env'] by blast
  have g2: "0 \<le> sint n \<longrightarrow> in_call n n []"
    using in_call_start [of n] by blast
  have g3: "in_call n target dst \<and> 0 <s n \<longrightarrow> in_call (n - 1) target (dst @ [b])"
    using in_call_step [of n target dst b] by blast
  have g4: "lflag s AND ICANON \<noteq> 0 \<and> committed s = bs @ rest \<and> 4 \<notin> set bs \<and> 10 \<notin> set bs \<and>
    int (length bs) < sint n \<and>
    await (s\<lparr> input_r := input_r s + word_of_nat (length bs) \<rparr>) env = Ready t env' \<and>
    input_buf t ! slot (input_r t) = 4 \<longrightarrow>
      consoleread n env s =
        Count (if bs = [] then t\<lparr> input_r := input_r t + 1 \<rparr> else t) bs
          (word_of_nat (length bs))"
    using consoleread_then_eof [of s bs rest n env t env'] by blast
  have g5: "lflag s AND ICANON \<noteq> 0 \<and> committed s = bs @ 4 # rest \<and> bs \<noteq> [] \<and> 4 \<notin> set bs \<and>
    10 \<notin> set bs \<and> int (length bs) < sint n \<longrightarrow>
      consoleread n env s =
        Count (s\<lparr> input_r := input_r s + word_of_nat (length bs) \<rparr>) bs
          (word_of_nat (length bs))"
    using consoleread_eof_deferred [of s bs rest n env] by blast
  have g6: "lflag s AND ICANON \<noteq> 0 \<and> 0 <s n \<and> input_r s \<noteq> input_w s \<and>
    input_buf s ! slot (input_r s) = 4 \<longrightarrow>
      consoleread n env s = Count (s\<lparr> input_r := input_r s + 1 \<rparr>) [] 0"
    using consoleread_eof_first [of n s env] by blast
  have g7: "0 <s m \<longrightarrow>
      consoleread m [] (after_ab_eof\<lparr> input_r := 2 \<rparr>) =
        Count (after_ab_eof\<lparr> input_r := 3 \<rparr>) [] 0"
    using second by blast
  show ?thesis
    by (intro conjI) (fact g1 g2 g3 g4 g5 g6 after_ab_eof_pushed first g7 third fourth)+
qed

theorem eof_deferral_witness:
  "consoleintr [chr CHR ''a'', chr CHR ''b'', C CHR ''D''] (consoleinit boot) = Some after_ab_eof \<and>
   lflag after_ab_eof AND ICANON \<noteq> 0 \<and> committed after_ab_eof = cstr ''ab'' @ 4 # [] \<and>
   consoleread 10 [] after_ab_eof = Count (after_ab_eof\<lparr> input_r := 2 \<rparr>) (cstr ''ab'') 2 \<and>
   input_buf (after_ab_eof\<lparr> input_r := 2 \<rparr>) ! slot (input_r (after_ab_eof\<lparr> input_r := 2 \<rparr>)) = 4 \<and>
   consoleread 1 [] (after_ab_eof\<lparr> input_r := 2 \<rparr>) = Count (after_ab_eof\<lparr> input_r := 3 \<rparr>) [] 0 \<and>
   in_call 10 10 [] \<and> 0 <s (10 :: cint) \<and>
   await (consoleinit boot) [Intr [C CHR ''D'']] = Ready woken_by_eof [] \<and>
   input_buf woken_by_eof ! slot (input_r woken_by_eof) = 4 \<and>
   consoleread_loop (consoleinit boot) 10 10 [] [Intr [C CHR ''D'']] =
     Count (woken_by_eof\<lparr> input_r := input_r woken_by_eof + 1 \<rparr>) [] 0 \<and>
   in_call 8 10 (cstr ''ab'') \<and> 0 <s (8 :: cint) \<and>
   await (after_ab_eof\<lparr> input_r := 2 \<rparr>) [] = Ready (after_ab_eof\<lparr> input_r := 2 \<rparr>) [] \<and>
   consoleread_loop (after_ab_eof\<lparr> input_r := 2 \<rparr>) 8 10 (cstr ''ab'') [] =
     Count (after_ab_eof\<lparr> input_r := 2 \<rparr>) (cstr ''ab'') 2 \<and>
   committed full_window = replicate 128 97 @ [] \<and>
   await (full_window\<lparr> input_r := input_r full_window + word_of_nat (length (replicate 128 (97 :: cchar))) \<rparr>)
     [Intr [C CHR ''D'']] = Ready full_then_eof [] \<and>
   input_buf full_then_eof ! slot (input_r full_then_eof) = 4 \<and>
   consoleread 200 [Intr [C CHR ''D'']] full_window = Count full_then_eof (replicate 128 97) 128"
proof -
  note t = eof_deferral [of 10 10 "[]" "consoleinit boot" "[Intr [C CHR ''D'']]" woken_by_eof "[]"]
  note u = eof_deferral [of 8 10 "cstr ''ab''" "after_ab_eof\<lparr> input_r := 2 \<rparr>" "[]"
      "after_ab_eof\<lparr> input_r := 2 \<rparr>" "[]"]
  have p: "(0::cint) <s 1" "(0::cint) <s 10" "(0::cint) <s 8" "0 \<le> sint (10 :: cint)"
    by (simp_all add: word_sless_alt)
  from t have a: "consoleintr [chr CHR ''a'', chr CHR ''b'', C CHR ''D''] (consoleinit boot) = Some after_ab_eof"
    by blast
  from t have b: "consoleread 10 [] after_ab_eof = Count (after_ab_eof\<lparr> input_r := 2 \<rparr>) (cstr ''ab'') 2"
    by blast
  from eof_deferral [where m = 1] p have c: "consoleread 1 [] (after_ab_eof\<lparr> input_r := 2 \<rparr>) = Count (after_ab_eof\<lparr> input_r := 3 \<rparr>) [] 0"
    by blast
  from t p have i1: "in_call 10 10 []" by blast
  with t p woken_by_eof_facts(1,2,3)
  have d: "consoleread_loop (consoleinit boot) 10 10 [] [Intr [C CHR ''D'']] =
     Count (if [] = ([] :: cchar list) then woken_by_eof\<lparr> input_r := input_r woken_by_eof + 1 \<rparr> else woken_by_eof) []
       (word_of_nat (length ([] :: cchar list)))" by blast
  have i2: "in_call 8 10 (cstr ''ab'')" by code_simp
  have aw: "await (after_ab_eof\<lparr> input_r := 2 \<rparr>) [] = Ready (after_ab_eof\<lparr> input_r := 2 \<rparr>) []"
    by code_simp
  from u i2 p aw after_ab_eof_facts(3,5)
  have e: "consoleread_loop (after_ab_eof\<lparr> input_r := 2 \<rparr>) 8 10 (cstr ''ab'') [] =
     Count (if cstr ''ab'' = [] then after_ab_eof\<lparr> input_r := 2, input_r := input_r (after_ab_eof\<lparr> input_r := 2 \<rparr>) + 1 \<rparr>
            else after_ab_eof\<lparr> input_r := 2 \<rparr>) (cstr ''ab'') (word_of_nat (length (cstr ''ab'')))"
    by simp
  from t have f: "consoleread 200 [Intr [C CHR ''D'']] full_window = Count full_then_eof (replicate 128 97) 128"
    by blast
  have d': "consoleread_loop (consoleinit boot) 10 10 [] [Intr [C CHR ''D'']] =
     Count (woken_by_eof\<lparr> input_r := input_r woken_by_eof + 1 \<rparr>) [] 0" using d by simp
  have e': "consoleread_loop (after_ab_eof\<lparr> input_r := 2 \<rparr>) 8 10 (cstr ''ab'') [] =
     Count (after_ab_eof\<lparr> input_r := 2 \<rparr>) (cstr ''ab'') 2" using e by (simp add: cstr_def)
  show ?thesis
    by (intro conjI) (fact a b c i1 i2 p aw d' e' f after_ab_eof_facts woken_by_eof_facts full_then_eof_facts)+
qed

section \<open>Kill-line\<close>

lemma consechoc_BACKSPACE:
  "\<not> panicked s \<Longrightarrow> consechoc BACKSPACE s = Some (s\<lparr> uart := uart s @ erase_echo s 1 \<rparr>)"
  by (simp add: consechoc_def consputc_def uartputc_def erase_echo_def BACKSPACE_def
      int_to_char_def)

lemma erase_echo_updates [simp]:
  "erase_echo (s\<lparr> input_e := x \<rparr>) k = erase_echo s k"
  "erase_echo (s\<lparr> uart := u \<rparr>) k = erase_echo s k"
  by (simp_all add: erase_echo_def lflag_def)

lemma erase_echo_Suc: "erase_echo s (Suc 0) @ erase_echo s k = erase_echo s (Suc k)"
  by (simp add: erase_echo_def)

lemma kill_line_to_commit:
  "\<not> panicked s \<Longrightarrow> 10 \<notin> set (pending s) \<Longrightarrow> length (pending s) = k \<Longrightarrow>
   kill_line s = Some (s\<lparr> input_e := input_w s, uart := uart s @ erase_echo s k \<rparr>)"
proof (induction k arbitrary: s)
  case 0
  then have "input_e s = input_w s" by (simp add: pending_def span_def unat_eq_0)
  then have "kill_line s = Some s" by (simp add: kill_line.simps [of s])
  moreover have "s\<lparr> input_e := input_w s, uart := uart s @ erase_echo s 0 \<rparr> = s"
    using \<open>input_e s = input_w s\<close> by (simp add: erase_echo_def)
  ultimately show ?case by simp
next
  case (Suc k)
  then have ne: "input_e s \<noteq> input_w s" by (auto simp: pending_def)
  let ?s1 = "s\<lparr> input_e := input_e s - 1 \<rparr>"
  let ?s2 = "?s1\<lparr> uart := uart s @ erase_echo s 1 \<rparr>"
  have p: "pending s = pending ?s1 @ [input_buf s ! slot (input_e s - 1)]"
    using span_butlast [OF ne, of "input_buf s"] by (simp add: pending_def)
  with Suc.prems have nl: "input_buf s ! slot (input_e s - 1) \<noteq> 10" and p1: "10 \<notin> set (pending ?s1)"
    and l1: "length (pending ?s1) = k" by auto
  have e: "consechoc BACKSPACE ?s1 = Some ?s2"
    using consechoc_BACKSPACE [of ?s1] Suc.prems(1) by simp
  have "kill_line ?s2 = Some (?s2\<lparr> input_e := input_w ?s2, uart := uart ?s2 @ erase_echo ?s2 k \<rparr>)"
    using Suc.prems(1) p1 l1 by (intro Suc.IH) (simp_all add: pending_def)
  then have "kill_line ?s2 = Some (s\<lparr> input_e := input_w s, uart := uart s @ erase_echo s (Suc k) \<rparr>)"
    by (simp add: erase_echo_Suc)
  moreover have "kill_line s = kill_line ?s2"
    using ne nl e by (simp add: kill_line.simps [of s])
  ultimately show ?case by simp
qed

text \<open>
  C5, for raw codes that are bytes. In canonical mode the kill-line code removes the bytes
  of the line under edit one by one, with one echoed erase for each when ECHO is set; in
  every state reached by the operations of the console, when every raw code fed was below
  \<open>0x100\<close>, the loop ends with E equal to W.
\<close>

theorem kill_line_reaches_commit:
  "reachable (\<lambda>c. c < 0x100) s \<Longrightarrow> lflag s AND ICANON \<noteq> 0 \<Longrightarrow>
   consoleintr1 (C CHR ''U'') s =
     Some (s\<lparr> input_e := input_w s,
              uart := uart s @ erase_echo s (unat (input_e s - input_w s)) \<rparr>)"
proof -
  assume r: "reachable (\<lambda>c. c < 0x100) s" and can: "lflag s AND ICANON \<noteq> 0"
  from reachable_good [OF r] have "\<not> panicked s" "10 \<notin> set (pending s)"
    by (simp_all add: good_def)
  then have "kill_line s = Some (s\<lparr> input_e := input_w s,
              uart := uart s @ erase_echo s (unat (input_e s - input_w s)) \<rparr>)"
    by (rule kill_line_to_commit) (simp add: pending_def span_def)
  with can show ?thesis by (simp add: consoleintr1_def)
qed

lemma after_10a_pushed: "consoleintr [0x10A] (consoleinit boot) = Some after_10a"
  by code_simp

text \<open>
  C5 for any raw code fails. \<open>getc\<close> returns an \<open>int\<close>; the code \<open>0x10A\<close> is not the line
  terminator, so it is stored without a commit, but its low byte, which is what the buffer
  keeps, is \<open>0x0A\<close>: the loop of line 120 then stops at once, with E one past W.
\<close>

theorem kill_line_stops_early_counterexample:
  "consoleintr [0x10A, C CHR ''U''] (consoleinit boot) = Some after_10a \<and>
   input_e after_10a \<noteq> input_w after_10a"
  by code_simp

lemma after_line_abc_pushed:
  "consoleintr [chr CHR ''x'', chr CHR 0x0D, chr CHR ''a'', chr CHR ''b'', chr CHR ''c'']
     (consoleinit boot) = Some after_line_abc"
  by code_simp

theorem kill_line_reaches_commit_witness:
  "reachable (\<lambda>c. c < 0x100) after_line_abc \<and> lflag after_line_abc AND ICANON \<noteq> 0 \<and>
   consoleintr1 (C CHR ''U'') after_line_abc =
     Some (after_line_abc\<lparr> input_e := 2,
       uart := cstr ''x'' @ [10] @ cstr ''abc'' @ [8, 32, 8, 8, 32, 8, 8, 32, 8] \<rparr>)"
proof -
  have l: "list_all (\<lambda>c. c < 0x100)
      [chr CHR ''x'', chr CHR 0x0D, chr CHR ''a'', chr CHR ''b'', chr CHR ''c'']"
    by (simp add: chr_def)
  have r: "reachable (\<lambda>c. c < 0x100) after_line_abc"
    by (rule reachable.by_intr [OF reachable.by_init [OF reachable.at_boot] l after_line_abc_pushed])
  have can: "lflag after_line_abc AND ICANON \<noteq> 0" by code_simp
  have "after_line_abc\<lparr> input_e := input_w after_line_abc,
          uart := uart after_line_abc @
            erase_echo after_line_abc (unat (input_e after_line_abc - input_w after_line_abc)) \<rparr> =
        after_line_abc\<lparr> input_e := 2,
          uart := cstr ''x'' @ [10] @ cstr ''abc'' @ [8, 32, 8, 8, 32, 8, 8, 32, 8] \<rparr>"
    by code_simp
  with kill_line_reaches_commit [OF r can] r can show ?thesis by simp
qed

section \<open>The echo flag\<close>

lemma keep_uart: "\<exists>u. (s::kernel) = s\<lparr> uart := u \<rparr>"
  by (rule exI [of _ "uart s"]) simp

lemma consechoc_twins:
  assumes "echo_twins s t"
  shows "\<exists>u. consechoc c s = Some (s\<lparr> uart := u \<rparr>)" and "consechoc c t = Some t"
  using assms by (auto simp: echo_twins_def consechoc_def consputc_def uartputc_def intro: keep_uart)

lemma echo_twins_uart [simp]: "echo_twins (s\<lparr> uart := u \<rparr>) t = echo_twins s t"
  by (simp add: echo_twins_def lflag_def)

lemma accumulate_twins:
  assumes tw: "echo_twins s t"
  shows "\<exists>s' t'. accumulate c s = Some s' \<and> accumulate c t = Some t' \<and> echo_twins s' t' \<and>
           uart t' = uart t \<and> cons_termios t' = cons_termios t"
proof (cases "c \<noteq> 0 \<and> input_e s - input_r s < INPUT_BUF")
  case False
  with tw show ?thesis by (auto simp: accumulate_def echo_twins_def)
next
  case True
  define c' where "c' = (if c = chr CHR 0x0D then chr CHR 0x0A else c)"
  define s1 where "s1 = s\<lparr> input_buf := (input_buf s)[slot (input_e s) := int_to_char c'],
                    input_e := input_e s + 1 \<rparr>"
  define t1 where "t1 = t\<lparr> input_buf := (input_buf t)[slot (input_e t) := int_to_char c'],
                    input_e := input_e t + 1 \<rparr>"
  have tw1: "echo_twins s1 t1" using tw by (simp add: echo_twins_def s1_def t1_def lflag_def)
  from consechoc_twins [OF tw1, of c'] obtain u where
    es: "consechoc c' s1 = Some (s1\<lparr> uart := u \<rparr>)" and et: "consechoc c' t1 = Some t1" by blast
  from True tw have True': "c \<noteq> 0 \<and> input_e t - input_r t < INPUT_BUF" by (simp add: echo_twins_def)
  show ?thesis
  proof (cases "c' = chr CHR 0x0A \<or> c' = C CHR ''D'' \<or> input_e s1 = input_r s1 + INPUT_BUF
                  \<or> lflag s1 AND ICANON = 0")
    case commit: True
    with tw1 have commit': "c' = chr CHR 0x0A \<or> c' = C CHR ''D'' \<or> input_e t1 = input_r t1 + INPUT_BUF
                  \<or> lflag t1 AND ICANON = 0" by (simp add: echo_twins_def)
    have "accumulate c s = Some (s1\<lparr> uart := u, input_w := input_e s1, wakeups := Suc (wakeups s1) \<rparr>)"
      using True es commit unfolding accumulate_def Let_def c'_def [symmetric] s1_def [symmetric]
      by (simp add: lflag_def)
    moreover have "accumulate c t = Some (t1\<lparr> input_w := input_e t1, wakeups := Suc (wakeups t1) \<rparr>)"
      using True' et commit' unfolding accumulate_def Let_def c'_def [symmetric] t1_def [symmetric]
      by (simp add: lflag_def)
    moreover have "echo_twins (s1\<lparr> uart := u, input_w := input_e s1, wakeups := Suc (wakeups s1) \<rparr>)
        (t1\<lparr> input_w := input_e t1, wakeups := Suc (wakeups t1) \<rparr>)"
      using tw1 by (simp add: echo_twins_def lflag_def)
    ultimately show ?thesis by (simp add: t1_def)
  next
    case no: False
    with tw1 have no': "\<not> (c' = chr CHR 0x0A \<or> c' = C CHR ''D'' \<or> input_e t1 = input_r t1 + INPUT_BUF
                  \<or> lflag t1 AND ICANON = 0)" by (simp add: echo_twins_def)
    have "accumulate c s = Some (s1\<lparr> uart := u \<rparr>)"
      using True es no unfolding accumulate_def Let_def c'_def [symmetric] s1_def [symmetric]
      by (simp add: lflag_def)
    moreover have "accumulate c t = Some t1"
      using True' et no' unfolding accumulate_def Let_def c'_def [symmetric] t1_def [symmetric]
      by (simp add: lflag_def)
    ultimately show ?thesis using tw1 by (simp add: t1_def)
  qed
qed

lemma kill_line_twins:
  "echo_twins s t \<Longrightarrow>
   \<exists>s' t'. kill_line s = Some s' \<and> kill_line t = Some t' \<and> echo_twins s' t' \<and>
           uart t' = uart t \<and> cons_termios t' = cons_termios t"
proof (induction s arbitrary: t rule: kill_line.induct)
  case (1 s)
  note tw = "1.prems"
  show ?case
  proof (cases "input_e s \<noteq> input_w s \<and>
         char_to_int (input_buf s ! slot (input_e s - 1)) \<noteq> chr CHR 0x0A")
    case False
    with tw have "kill_line s = Some s" "kill_line t = Some t"
      by (auto simp: kill_line.simps [of s] kill_line.simps [of t] echo_twins_def)
    with tw show ?thesis by simp
  next
    case True
    with tw have True': "input_e t \<noteq> input_w t \<and>
         char_to_int (input_buf t ! slot (input_e t - 1)) \<noteq> chr CHR 0x0A"
      by (simp add: echo_twins_def)
    let ?s1 = "s\<lparr> input_e := input_e s - 1 \<rparr>" and ?t1 = "t\<lparr> input_e := input_e t - 1 \<rparr>"
    have tw1: "echo_twins ?s1 ?t1" using tw by (simp add: echo_twins_def lflag_def)
    from consechoc_twins [OF tw1, of BACKSPACE] obtain u where
      es: "consechoc BACKSPACE ?s1 = Some (?s1\<lparr> uart := u \<rparr>)"
      and et: "consechoc BACKSPACE ?t1 = Some ?t1" by blast
    from tw1 have "echo_twins (?s1\<lparr> uart := u \<rparr>) ?t1" by simp
    from "1.IH" [OF True es this] obtain s' t' where
      r: "kill_line (?s1\<lparr> uart := u \<rparr>) = Some s'" "kill_line ?t1 = Some t'" "echo_twins s' t'"
        "uart t' = uart ?t1" "cons_termios t' = cons_termios ?t1" by blast
    have "kill_line s = Some s'" using True es r(1) by (simp add: kill_line.simps [of s])
    moreover have "kill_line t = Some t'" using True' et r(2) by (simp add: kill_line.simps [of t])
    ultimately show ?thesis using r by simp
  qed
qed

lemma consoleintr1_twins:
  assumes tw: "echo_twins s t"
  shows "\<exists>s' t'. consoleintr1 c s = Some s' \<and> consoleintr1 c t = Some t' \<and> echo_twins s' t' \<and>
           uart t' = uart t \<and> cons_termios t' = cons_termios t"
proof -
  from tw have can: "lflag s AND ICANON \<noteq> 0 \<longleftrightarrow> lflag t AND ICANON \<noteq> 0"
    and e: "input_e s \<noteq> input_w s \<longleftrightarrow> input_e t \<noteq> input_w t"
    by (simp_all add: echo_twins_def)
  consider (dump) "lflag s AND ICANON \<noteq> 0" "c = C CHR ''P''"
    | (kill) "lflag s AND ICANON \<noteq> 0" "c \<noteq> C CHR ''P''" "c = C CHR ''U''"
    | (erase) "lflag s AND ICANON \<noteq> 0" "c \<noteq> C CHR ''P''" "c \<noteq> C CHR ''U''"
        "c = C CHR ''H'' \<or> c = chr CHR 0x7F" "input_e s \<noteq> input_w s"
    | (noerase) "lflag s AND ICANON \<noteq> 0" "c \<noteq> C CHR ''P''" "c \<noteq> C CHR ''U''"
        "c = C CHR ''H'' \<or> c = chr CHR 0x7F" "input_e s = input_w s"
    | (acc) "lflag s AND ICANON = 0 \<or>
        (c \<noteq> C CHR ''P'' \<and> c \<noteq> C CHR ''U'' \<and> c \<noteq> C CHR ''H'' \<and> c \<noteq> chr CHR 0x7F)"
    by blast
  then show ?thesis
  proof cases
    case dump
    with can tw show ?thesis by (simp add: consoleintr1_def echo_twins_def lflag_def)
  next
    case kill
    with can kill_line_twins [OF tw] show ?thesis by (simp add: consoleintr1_def)
  next
    case erase
    let ?s1 = "s\<lparr> input_e := input_e s - 1 \<rparr>" and ?t1 = "t\<lparr> input_e := input_e t - 1 \<rparr>"
    have tw1: "echo_twins ?s1 ?t1" using tw by (simp add: echo_twins_def lflag_def)
    from consechoc_twins [OF tw1, of BACKSPACE] obtain u where
      es: "consechoc BACKSPACE ?s1 = Some (?s1\<lparr> uart := u \<rparr>)"
      and et: "consechoc BACKSPACE ?t1 = Some ?t1" by blast
    have "consoleintr1 c s = Some (?s1\<lparr> uart := u \<rparr>)" "consoleintr1 c t = Some ?t1"
      using erase can e es et by (auto simp: consoleintr1_def)
    with tw1 show ?thesis by simp
  next
    case noerase
    with can e have "consoleintr1 c s = Some s" "consoleintr1 c t = Some t"
      by (auto simp: consoleintr1_def)
    with tw show ?thesis by simp
  next
    case acc
    with can have "consoleintr1 c s = accumulate c s" "consoleintr1 c t = accumulate c t"
      by (auto simp: consoleintr1_def)
    with accumulate_twins [OF tw, of c] show ?thesis by simp
  qed
qed

lemma consoleintr_twins:
  "echo_twins s t \<Longrightarrow>
   \<exists>s' t'. consoleintr codes s = Some s' \<and> consoleintr codes t = Some t' \<and> echo_twins s' t' \<and>
           uart t' = uart t \<and> cons_termios t' = cons_termios t"
proof (induction codes arbitrary: s t)
  case Nil
  then show ?case by simp
next
  case (Cons c codes)
  show ?case
  proof (cases "c <s 0")
    case True
    with Cons.prems show ?thesis by simp
  next
    case False
    from consoleintr1_twins [OF Cons.prems, of c] obtain s1 t1 where
      a: "consoleintr1 c s = Some s1" "consoleintr1 c t = Some t1" "echo_twins s1 t1"
        "uart t1 = uart t" "cons_termios t1 = cons_termios t" by blast
    from Cons.IH [OF a(3)] a False show ?thesis by auto
  qed
qed

lemma echo_bit_apart:
  "(l OR ECHO) AND ICANON = (l AND NOT ECHO) AND ICANON" "(l AND NOT ECHO) AND ECHO = 0"
  "(l OR ECHO) AND ECHO \<noteq> 0"
proof -
  have a: "ECHO AND ICANON = 0" "NOT ECHO AND ICANON = ICANON"
    by (simp_all add: ECHO_def ICANON_def)
  have "(l OR ECHO) AND ICANON = (l AND ICANON) OR (ECHO AND ICANON)"
    by (simp add: bit.conj_disj_distrib2)
  moreover have "(l AND NOT ECHO) AND ICANON = l AND (NOT ECHO AND ICANON)"
    by (simp add: and.assoc)
  ultimately show "(l OR ECHO) AND ICANON = (l AND NOT ECHO) AND ICANON" by (simp add: a)
  show "(l AND NOT ECHO) AND ECHO = 0" by (simp add: and.assoc)
  have "(l OR ECHO) AND ECHO = ECHO" by (simp add: and.commute)
  then show "(l OR ECHO) AND ECHO \<noteq> 0" by (simp add: ECHO_def)
qed

text \<open>
  The flag \<open>panicked\<close> is clear in every reachable state: \<open>panic\<close> sets it and spins, so
  no operation returns with the flag set. (Were it set, \<open>consputc\<close> would spin at the first
  byte to write.)
\<close>

lemma reachable_not_panicked: "reachable P s \<Longrightarrow> \<not> panicked s"
  by (drule reachable_good) (simp add: good_def)

text \<open>
  C7. From any reachable state, run \<open>consoleintr\<close> on the same codes twice, once with ECHO
  set and once with ECHO clear in the same flag word: both runs return, with the same
  buffer, the same cursors R, W and E, the same number of wake-ups (and of process dumps).
  With ECHO clear nothing at all is written to the output.
\<close>

theorem echo_flag_only_echo:
  assumes "reachable P s"
  shows "\<exists>t_on t_off.
     consoleintr codes (s\<lparr> cons_termios := \<lparr> c_lflag = l OR ECHO \<rparr> \<rparr>) = Some t_on \<and>
     consoleintr codes (s\<lparr> cons_termios := \<lparr> c_lflag = l AND NOT ECHO \<rparr> \<rparr>) = Some t_off \<and>
     input_buf t_on = input_buf t_off \<and> input_r t_on = input_r t_off \<and>
     input_w t_on = input_w t_off \<and> input_e t_on = input_e t_off \<and>
     wakeups t_on = wakeups t_off \<and> procdumps t_on = procdumps t_off \<and>
     uart t_off = uart s"
proof -
  let ?on = "s\<lparr> cons_termios := \<lparr> c_lflag = l OR ECHO \<rparr> \<rparr>"
  let ?off = "s\<lparr> cons_termios := \<lparr> c_lflag = l AND NOT ECHO \<rparr> \<rparr>"
  from reachable_good [OF assms] have "\<not> panicked s" by (simp add: good_def)
  then have "echo_twins ?on ?off"
    by (simp add: echo_twins_def lflag_def echo_bit_apart)
  from consoleintr_twins [OF this, of codes] show ?thesis
    by (auto simp: echo_twins_def)
qed

theorem echo_flag_only_echo_witness:
  "reachable (\<lambda>c. True) (consoleinit boot) \<and>
   consoleintr [chr CHR ''a'', chr CHR 0x0D]
     ((consoleinit boot)\<lparr> cons_termios := \<lparr> c_lflag = ICANON OR ECHO \<rparr> \<rparr>) =
     Some ((consoleinit boot)\<lparr> cons_termios := \<lparr> c_lflag = ICANON OR ECHO \<rparr>,
        input_buf := cstr ''a'' @ [10] @ replicate 126 0, input_w := 2, input_e := 2,
        wakeups := 1, uart := cstr ''a'' @ [10] \<rparr>) \<and>
   consoleintr [chr CHR ''a'', chr CHR 0x0D]
     ((consoleinit boot)\<lparr> cons_termios := \<lparr> c_lflag = ICANON AND NOT ECHO \<rparr> \<rparr>) =
     Some ((consoleinit boot)\<lparr> cons_termios := \<lparr> c_lflag = ICANON AND NOT ECHO \<rparr>,
        input_buf := cstr ''a'' @ [10] @ replicate 126 0, input_w := 2, input_e := 2,
        wakeups := 1 \<rparr>)"
proof -
  have r: "reachable (\<lambda>c. True) (consoleinit boot)"
    by (rule reachable.by_init [OF reachable.at_boot])
  have h_on: "consoleintr [chr CHR ''a'', chr CHR 0x0D]
     ((consoleinit boot)\<lparr> cons_termios := \<lparr> c_lflag = ICANON OR ECHO \<rparr> \<rparr>) =
     Some ((consoleinit boot)\<lparr> cons_termios := \<lparr> c_lflag = ICANON OR ECHO \<rparr>,
        input_buf := cstr ''a'' @ [10] @ replicate 126 0, input_w := 2, input_e := 2,
        wakeups := 1, uart := cstr ''a'' @ [10] \<rparr>)"
    by code_simp
  have h_off: "consoleintr [chr CHR ''a'', chr CHR 0x0D]
     ((consoleinit boot)\<lparr> cons_termios := \<lparr> c_lflag = ICANON AND NOT ECHO \<rparr> \<rparr>) =
     Some ((consoleinit boot)\<lparr> cons_termios := \<lparr> c_lflag = ICANON AND NOT ECHO \<rparr>,
        input_buf := cstr ''a'' @ [10] @ replicate 126 0, input_w := 2, input_e := 2,
        wakeups := 1 \<rparr>)"
    by code_simp
  from echo_flag_only_echo [OF r, of "[chr CHR ''a'', chr CHR 0x0D]" ICANON] r h_on h_off
  show ?thesis by simp
qed

section \<open>The control operation\<close>

lemma consoleioctl_rejects:
  "req \<noteq> TCGETA \<Longrightarrow> req \<noteq> TCSETA \<Longrightarrow> consoleioctl req termios_p s = (s, termios_p, Some (- 1))"
  by (simp add: consoleioctl_def)

text \<open>
  C9, at the requests it is about. A get-mode or set-mode request with a valid pointer
  does the exchange (get copies \<open>cons.termios\<close> out, set overwrites it), but control then
  reaches the closing brace of line 212 of a function declared \<open>int\<close>: no value is
  returned, neither success nor failure. Every other request returns \<open>-1\<close> and changes
  nothing (\<open>consoleioctl_rejects\<close>).
\<close>

theorem consoleioctl_returns_no_value:
  "consoleioctl TCGETA (Some t) s = (s, Some (cons_termios s), None) \<and>
   consoleioctl TCSETA (Some t) s = (s\<lparr> cons_termios := t \<rparr>, Some t, None)"
  by (simp add: consoleioctl_def TCGETA_def TCSETA_def)

section \<open>The formatter\<close>

lemma cprintf_loop_literal:
  "char_to_int b AND 0xff \<noteq> 0 \<Longrightarrow> char_to_int b AND 0xff \<noteq> chr CHR ''%'' \<Longrightarrow>
   cprintf_loop mem (b # fmt) args s =
     (case consputc (char_to_int b AND 0xff) s of None \<Rightarrow> None
      | Some s' \<Rightarrow> cprintf_loop mem fmt args s')"
  by (cases fmt) (auto simp: Let_def split: option.splits)

lemma trailing_percent:
  "ends_with_lone_percent fmt \<Longrightarrow>
   cprintf_loop mem fmt args s = cprintf_loop mem (butlast fmt) args s"
proof (induction fmt arbitrary: args s rule: ends_with_lone_percent.induct)
  case 1
  then show ?case by simp
next
  case (2 b)
  then show ?case by (simp add: Let_def)
next
  case (3 b b' fmt)
  define c where "c = char_to_int b AND 0xff"
  define c' where "c' = char_to_int b' AND 0xff"
  from "3.prems" have nz: "c \<noteq> 0" by (auto simp: c_def split: if_splits)
  show ?case
  proof (cases "c = chr CHR ''%''")
    case False
    with "3.prems" nz have l: "ends_with_lone_percent (b' # fmt)" by (simp add: c_def)
    have "cprintf_loop mem (b # b' # fmt) args s =
      (case consputc c s of None \<Rightarrow> None | Some s' \<Rightarrow> cprintf_loop mem (b' # fmt) args s')"
      using nz False by (simp add: cprintf_loop_literal c_def)
    also have "\<dots> =
      (case consputc c s of None \<Rightarrow> None | Some s' \<Rightarrow> cprintf_loop mem (butlast (b' # fmt)) args s')"
      using "3.IH"(1) [OF _ _ l] nz False by (simp add: c_def split: option.splits)
    also have "\<dots> = cprintf_loop mem (b # butlast (b' # fmt)) args s"
      using nz False cprintf_loop_literal [of b mem "butlast (b' # fmt)" args s]
      by (simp add: c_def del: butlast.simps)
    finally show ?thesis by simp
  next
    case True
    with "3.prems" nz have nz': "c' \<noteq> 0" and l: "ends_with_lone_percent fmt"
      by (auto simp: c_def c'_def split: if_splits)
    from l have ne: "fmt \<noteq> []" by auto
    then have f: "butlast (b # b' # fmt) = b # b' # butlast fmt"
      by simp
    have "cprintf_loop mem (b # b' # fmt) args s =
      (case conversion mem c' args s of None \<Rightarrow> None
       | Some (args', s') \<Rightarrow> cprintf_loop mem fmt args' s')"
      using nz True nz' by (simp add: c_def c'_def Let_def)
    also have "\<dots> =
      (case conversion mem c' args s of None \<Rightarrow> None
       | Some (args', s') \<Rightarrow> cprintf_loop mem (butlast fmt) args' s')"
      using "3.IH"(2) [OF _ _ _ l] nz True nz' by (simp add: c_def c'_def split: option.splits)
    also have "\<dots> = cprintf_loop mem (b # b' # butlast fmt) args s"
      using nz True nz' by (simp add: c_def c'_def Let_def)
    finally show ?thesis unfolding f .
  qed
qed

lemma byte_of_masked [simp]: "int_to_char (char_to_int b AND 0xff) = b"
proof -
  have m: "(0xff :: cint) = mask 8" by (simp add: mask_eq_exp_minus_1)
  show ?thesis
    unfolding int_to_char_def char_to_int_def m
    by (rule bit_word_eqI) (auto simp: bit_simps)
qed

lemma masked_ne_BACKSPACE [simp]: "char_to_int b AND 0xff \<noteq> BACKSPACE"
proof
  assume "char_to_int b AND 0xff = BACKSPACE"
  moreover have "char_to_int b AND 0xff \<le> 0xff" by (rule word_and_le1)
  ultimately show False by (simp add: BACKSPACE_def)
qed

lemma consputc_plain:
  "\<not> panicked s \<Longrightarrow> c \<noteq> BACKSPACE \<Longrightarrow>
   consputc c s = Some (s\<lparr> uart := uart s @ [int_to_char c] \<rparr>)"
  by (simp add: consputc_def uartputc_def)

lemma int_to_char_37 [simp]: "int_to_char 37 = 37"
  by (simp add: int_to_char_def)

lemma unknown_conversion:
  assumes np: "\<not> panicked s"
    and un: "char_to_int b AND 0xff \<notin> {0, chr CHR ''d'', chr CHR ''x'', chr CHR ''p'', chr CHR ''s'', chr CHR ''%''}"
  shows "cprintf_loop mem (cstr ''%'' @ b # fmt) args s =
         cprintf_loop mem fmt args (s\<lparr> uart := uart s @ cstr ''%'' @ [b] \<rparr>)"
proof -
  let ?c = "char_to_int b AND 0xff"
  have p: "(37 :: cint) \<noteq> BACKSPACE" by (simp add: BACKSPACE_def)
  have 1: "consputc 37 s = Some (s\<lparr> uart := uart s @ [37] \<rparr>)"
    using consputc_plain [OF np p] by simp
  have 2: "consputc ?c (s\<lparr> uart := uart s @ [37] \<rparr>) = Some (s\<lparr> uart := uart s @ [37, b] \<rparr>)"
    using consputc_plain [of "s\<lparr> uart := uart s @ [37] \<rparr>" ?c] np by simp
  have "conversion mem ?c args s = Some (args, s\<lparr> uart := uart s @ cstr ''%'' @ [b] \<rparr>)"
    using un by (simp add: conversion_def 1 2 cstr_def)
  moreover have "char_to_int (of_char CHR ''%'') AND 0xff = (37 :: cint)"
    by (simp add: char_to_int_def)
  ultimately show ?thesis using un by (simp add: cstr_def Let_def)
qed

text \<open>
  C10. For a format that ends with a lone \<open>%\<close>, \<open>cprintf\<close> does exactly what it does for
  the format without that last character: nothing is written for it. Any other \<open>%\<close>
  followed by a character that is not \<open>d\<close>, \<open>x\<close>, \<open>p\<close>, \<open>s\<close> or \<open>%\<close> writes the \<open>%\<close>
  and that character.
\<close>

theorem trailing_percent_silent:
  "(ends_with_lone_percent fmt \<longrightarrow>
      cprintf mem (Some fmt) args s = cprintf mem (Some (butlast fmt)) args s) \<and>
   (\<not> panicked s \<and>
    char_to_int b AND 0xff \<notin>
      {0, chr CHR ''d'', chr CHR ''x'', chr CHR ''p'', chr CHR ''s'', chr CHR ''%''} \<longrightarrow>
      cprintf mem (Some (cstr ''%'' @ b # fmt)) args s =
        cprintf mem (Some fmt) args (s\<lparr> uart := uart s @ cstr ''%'' @ [b] \<rparr>))"
  by (simp add: cprintf_def trailing_percent unknown_conversion del: insert_iff)

theorem trailing_percent_silent_witness:
  "ends_with_lone_percent (cstr ''ab%'') \<and>
   cprintf (\<lambda>a. []) (Some (cstr ''ab%'')) [] (consoleinit boot) =
     Some ((consoleinit boot)\<lparr> uart := cstr ''ab'' \<rparr>) \<and>
   \<not> panicked (consoleinit boot) \<and>
   cprintf (\<lambda>a. []) (Some (cstr ''%q'')) [] (consoleinit boot) =
     Some ((consoleinit boot)\<lparr> uart := cstr ''%q'' \<rparr>)"
proof -
  have a: "ends_with_lone_percent (cstr ''ab%'')" by code_simp
  have b: "cprintf (\<lambda>a. []) (Some (butlast (cstr ''ab%''))) [] (consoleinit boot) =
     Some ((consoleinit boot)\<lparr> uart := cstr ''ab'' \<rparr>)" by code_simp
  have c: "\<not> panicked (consoleinit boot)" by code_simp
  have d: "char_to_int (of_char CHR ''q'') AND 0xff \<notin>
      {0, chr CHR ''d'', chr CHR ''x'', chr CHR ''p'', chr CHR ''s'', chr CHR ''%''}"
    by (simp add: char_to_int_def)
  have e: "cprintf (\<lambda>a. []) (Some []) [] ((consoleinit boot)\<lparr> uart := uart (consoleinit boot) @ cstr ''%'' @ [of_char CHR ''q''] \<rparr>) =
     Some ((consoleinit boot)\<lparr> uart := cstr ''%q'' \<rparr>)" by code_simp
  have f: "cstr ''%'' @ [of_char CHR ''q''] = cstr ''%q''" by (simp add: cstr_def)
  from trailing_percent_silent [where fmt = "cstr ''ab%''" and mem = "\<lambda>a. []" and args = "[]"
      and s = "consoleinit boot"]
    trailing_percent_silent [where fmt = "[]" and mem = "\<lambda>a. []" and args = "[]"
      and s = "consoleinit boot" and b = "of_char CHR ''q''"]
    a b c d e
  have "cprintf (\<lambda>a. []) (Some (cstr ''ab%'')) [] (consoleinit boot) =
     Some ((consoleinit boot)\<lparr> uart := cstr ''ab'' \<rparr>)"
    and "cprintf (\<lambda>a. []) (Some (cstr ''%'' @ [of_char CHR ''q''])) [] (consoleinit boot) =
     Some ((consoleinit boot)\<lparr> uart := cstr ''%q'' \<rparr>)"
    by (simp_all del: insert_iff)
  with a c f show ?thesis by simp
qed

lemma cprintf_examples:
  "cprintf hi_at (Some (cstr ''%d:%x:%s'')) [- 5, 255, 0x1000] (consoleinit boot) =
     Some ((consoleinit boot)\<lparr> uart := cstr ''-5:ff:hi'' \<rparr>)"
  "cprintf hi_at (Some (cstr ''%s'')) [0] (consoleinit boot) =
     Some ((consoleinit boot)\<lparr> uart := cstr ''(null)'' \<rparr>)"
  "cprintf hi_at (Some (cstr ''%q'')) [] (consoleinit boot) =
     Some ((consoleinit boot)\<lparr> uart := cstr ''%q'' \<rparr>)"
  "cprintf hi_at (Some (cstr ''%%'')) [] (consoleinit boot) =
     Some ((consoleinit boot)\<lparr> uart := cstr ''%'' \<rparr>)"
  by code_simp+

lemma digits_table: "\<forall>i \<in> set [0..<16]. digit_value (digits ! i) = i \<and> digits ! i = cstr ''0123456789abcdef'' ! i"
  by code_simp

lemma digits_nth:
  assumes "i < base" "base \<le> 16"
  shows "digit_value (digits ! i) = i" "digits ! i \<in> set (take base (cstr ''0123456789abcdef''))"
proof -
  from assms have i: "i \<in> set [0..<16]" by simp
  with digits_table show "digit_value (digits ! i) = i" by blast
  from i digits_table have "digits ! i = cstr ''0123456789abcdef'' ! i" by blast
  also have "\<dots> = take base (cstr ''0123456789abcdef'') ! i" using assms by simp
  also have "\<dots> \<in> set (take base (cstr ''0123456789abcdef''))"
    using assms by (intro nth_mem) (simp add: cstr_def)
  finally show "digits ! i \<in> set (take base (cstr ''0123456789abcdef''))" .
qed

lemma digit_value_48 [simp]: "digit_value 48 = 0"
  by (simp add: digit_value_def)

lemma length_digits [simp]: "length digits = 17"
  by (simp add: digits_def cstr_def)

lemma printint_digits_spec:
  "unat x < unat base ^ k \<Longrightarrow> 0 < k \<Longrightarrow> 2 \<le> unat base \<Longrightarrow> unat base \<le> 16 \<Longrightarrow>
   length buf + k \<le> 16 \<Longrightarrow>
   \<exists>ds. printint_digits x base buf = Some (buf @ ds) \<and> ds \<noteq> [] \<and> length ds \<le> k \<and>
        numeral_value (unat base) (rev ds) = unat x \<and>
        set ds \<subseteq> set (take (unat base) (cstr ''0123456789abcdef'')) \<and>
        (x \<noteq> 0 \<longrightarrow> last ds \<noteq> 48) \<and> (x = 0 \<longrightarrow> ds = [48])"
proof (induction k arbitrary: x buf)
  case 0
  then show ?case by simp
next
  case (Suc k)
  let ?b = "unat base"
  let ?d = "digits ! unat (x mod base)"
  from Suc.prems have bnz: "base \<noteq> 0" by auto
  have m: "unat (x mod base) = unat x mod ?b" by (simp add: unat_mod)
  have dv: "unat (x div base) = unat x div ?b" by (simp add: unat_div)
  from Suc.prems have mlt: "unat (x mod base) < ?b" by (simp add: m)
  note dn = digits_nth [OF mlt Suc.prems(4)]
  have ok: "\<not> (base = 0 \<or> 16 \<le> length buf \<or> length digits \<le> unat (x mod base))"
    using bnz Suc.prems mlt by simp
  show ?case
  proof (cases "x div base = 0")
    case True
    then have "unat x div ?b = 0" using dv by simp
    then have small: "unat x < ?b" using Suc.prems(3) by (simp add: div_eq_0_iff)
    then have mx: "unat (x mod base) = unat x" by (simp add: m)
    have r: "printint_digits x base buf = Some (buf @ [?d])"
      using ok True by (simp add: printint_digits.simps [of x base buf])
    have "x \<noteq> 0 \<longrightarrow> ?d \<noteq> 48"
    proof
      assume "x \<noteq> 0"
      then have "unat x \<noteq> 0" by (simp add: unat_eq_0)
      with dn(1) mx show "?d \<noteq> 48" by auto
    qed
    moreover have "x = 0 \<longrightarrow> ?d = 48" by (auto simp: digits_def cstr_def)
    ultimately show ?thesis using r dn mx by (simp add: numeral_value_def)
  next
    case False
    then have big: "?b \<le> unat x" using dv Suc.prems(3)
      by (metis div_eq_0_iff not_less unat_eq_0 not_numeral_le_zero)
    have k: "0 < k"
    proof (rule ccontr)
      assume "\<not> 0 < k"
      with Suc.prems(1) big show False by simp
    qed
    have lt: "unat (x div base) < ?b ^ k"
      using Suc.prems(1,3) by (simp add: dv less_mult_imp_div_less mult.commute)
    from Suc.IH [OF lt k Suc.prems(3,4), of "buf @ [?d]"] Suc.prems(5) False
    obtain ds where ds: "printint_digits (x div base) base (buf @ [?d]) = Some ((buf @ [?d]) @ ds)"
      "ds \<noteq> []" "length ds \<le> k" "numeral_value ?b (rev ds) = unat (x div base)"
      "set ds \<subseteq> set (take ?b (cstr ''0123456789abcdef''))" "last ds \<noteq> 48"
      by auto
    have r: "printint_digits x base buf = Some (buf @ ?d # ds)"
      using ok False ds(1) by (simp add: printint_digits.simps [of x base buf])
    have v: "numeral_value ?b (rev (?d # ds)) = unat x"
      using ds(4) dn(1) by (simp add: numeral_value_def m dv)
    from False have "x \<noteq> 0" by auto
    with r v ds dn(2) show ?thesis by (intro exI [of _ "?d # ds"]) simp
  qed
qed

lemma char_to_int_ne_BACKSPACE [simp]: "char_to_int b \<noteq> BACKSPACE"
proof
  assume a: "char_to_int b = BACKSPACE"
  have z: "int_to_char BACKSPACE = 0" by (simp add: int_to_char_def BACKSPACE_def)
  from a have "int_to_char (char_to_int b) = int_to_char BACKSPACE" by simp
  with z have "b = 0" by simp
  with a show False by (simp add: char_to_int_def BACKSPACE_def)
qed

lemma putcs_chars:
  "\<not> panicked s \<Longrightarrow> putcs (map char_to_int bs) s = Some (s\<lparr> uart := uart s @ bs \<rparr>)"
proof (induction bs arbitrary: s)
  case Nil
  then show ?case by simp
next
  case (Cons b bs)
  from Cons.prems have "consputc (char_to_int b) s = Some (s\<lparr> uart := uart s @ [b] \<rparr>)"
    by (simp add: consputc_plain)
  moreover have "putcs (map char_to_int bs) (s\<lparr> uart := uart s @ [b] \<rparr>) =
      Some (s\<lparr> uart := uart s @ [b] \<rparr>\<lparr> uart := uart (s\<lparr> uart := uart s @ [b] \<rparr>) @ bs \<rparr>)"
    using Cons.prems by (intro Cons.IH) simp
  ultimately show ?case by simp
qed

lemma printint_digits_numeral:
  assumes b: "base = 10 \<or> base = 16"
  shows "\<exists>ds. printint_digits x base [] = Some ds \<and> length ds \<le> 10 \<and>
          is_numeral (unat base) (rev ds) \<and> numeral_value (unat base) (rev ds) = unat x"
proof -
  have x32: "unat x < 2 ^ 32" using unsigned_less [of x, where 'a = nat] by simp
  from b have "unat x < unat base ^ 10 \<and> 2 \<le> unat base \<and> unat base \<le> 16"
    using x32 by auto
  with printint_digits_spec [of x base 10 "[]"] obtain ds where
    ds: "printint_digits x base [] = Some ds" "ds \<noteq> []" "length ds \<le> 10"
      "numeral_value (unat base) (rev ds) = unat x"
      "set ds \<subseteq> set (take (unat base) (cstr ''0123456789abcdef''))"
      "x \<noteq> 0 \<longrightarrow> last ds \<noteq> 48" "x = 0 \<longrightarrow> ds = [48]"
    by auto
  have "is_numeral (unat base) (rev ds)"
    using ds by (cases "x = 0") (auto simp: is_numeral_def hd_rev)
  with ds show ?thesis by simp
qed

lemma unat_abs:
  fixes a :: cint
  shows "unat (if a <s 0 then - a else a) = nat \<bar>sint a\<bar>"
proof (cases "a <s 0")
  case False
  then have "0 \<le> sint a" by (simp add: word_sless_alt)
  with False uint_eq_sint [of a] show ?thesis by (simp add: unat_eq_nat_uint)
next
  case True
  then have n: "sint a < 0" by (simp add: word_sless_alt)
  have ge: "- (2 ^ 31) \<le> sint a" using sint_ge [of a] by simp
  have "uint (- a) = (- uint a) mod 2 ^ 32" by (simp add: uint_word_ariths)
  also have "uint a = sint a mod 2 ^ 32" by (simp add: uint_sint take_bit_eq_mod)
  also have "(- (sint a mod 2 ^ 32)) mod 2 ^ 32 = (- sint a) mod 2 ^ 32" by (simp add: mod_minus_eq)
  also have "\<dots> = - sint a" using n ge by (intro mod_pos_pos_trivial) auto
  finally have "uint (- a) = - sint a" .
  with True n show ?thesis by (simp add: unat_eq_nat_uint)
qed

text \<open>
  C8. From the state after \<open>consoleinit\<close>: \<open>cprintf("%d:%x:%s", -5, 255, "hi")\<close> writes
  \<open>-5:ff:hi\<close>, \<open>cprintf("%s", 0)\<close> writes \<open>(null)\<close>, \<open>cprintf("%q")\<close> writes \<open>%q\<close> and
  \<open>cprintf("%%")\<close> writes \<open>%\<close>. For any word \<open>a\<close>, \<open>%d\<close> writes a \<open>-\<close> when \<open>a\<close> is
  negative as an \<open>int\<close>, then the decimal numeral of its absolute value; \<open>%x\<close> and \<open>%p\<close>
  write the hexadecimal numeral of \<open>a\<close> as an unsigned value.
\<close>

theorem cprintf_renders:
  "cprintf hi_at (Some (cstr ''%d:%x:%s'')) [- 5, 255, 0x1000] (consoleinit boot) =
     Some ((consoleinit boot)\<lparr> uart := cstr ''-5:ff:hi'' \<rparr>) \<and>
   cprintf hi_at (Some (cstr ''%s'')) [0] (consoleinit boot) =
     Some ((consoleinit boot)\<lparr> uart := cstr ''(null)'' \<rparr>) \<and>
   cprintf hi_at (Some (cstr ''%q'')) [] (consoleinit boot) =
     Some ((consoleinit boot)\<lparr> uart := cstr ''%q'' \<rparr>) \<and>
   cprintf hi_at (Some (cstr ''%%'')) [] (consoleinit boot) =
     Some ((consoleinit boot)\<lparr> uart := cstr ''%'' \<rparr>) \<and>
   (\<not> panicked s \<longrightarrow>
      (\<exists>ds. is_numeral 10 ds \<and> numeral_value 10 ds = nat \<bar>sint a\<bar> \<and>
         cprintf mem (Some (cstr ''%d'')) [a] s =
           Some (s\<lparr> uart := uart s @ (if a <s 0 then cstr ''-'' else []) @ ds \<rparr>)) \<and>
      (\<exists>ds. is_numeral 16 ds \<and> numeral_value 16 ds = unat a \<and>
         cprintf mem (Some (cstr ''%x'')) [a] s = Some (s\<lparr> uart := uart s @ ds \<rparr>) \<and>
         cprintf mem (Some (cstr ''%p'')) [a] s = Some (s\<lparr> uart := uart s @ ds \<rparr>)))"
proof -
  have dec: "\<exists>ds. is_numeral 10 ds \<and> numeral_value 10 ds = nat \<bar>sint a\<bar> \<and>
         cprintf mem (Some (cstr ''%d'')) [a] s =
           Some (s\<lparr> uart := uart s @ (if a <s 0 then cstr ''-'' else []) @ ds \<rparr>)"
    if np: "\<not> panicked s"
  proof -
    let ?x = "if a <s 0 then - a else a"
    from printint_digits_numeral [of 10 ?x] obtain ds where
      ds: "printint_digits ?x 10 [] = Some ds" "length ds \<le> 10"
        "is_numeral 10 (rev ds)" "numeral_value 10 (rev ds) = unat ?x" by auto
    have m: "int_to_char 45 = (45 :: cchar)" by (simp add: int_to_char_def)
    have "printint a 10 1 s =
        Some (s\<lparr> uart := uart s @ (if a <s 0 then cstr ''-'' else []) @ rev ds \<rparr>)"
      using ds(1,2) np putcs_chars [OF np, of "45 # rev ds"] putcs_chars [OF np, of "rev ds"]
      by (simp add: printint_def Let_def cstr_def m del: putcs.simps)
    then have "cprintf mem (Some (cstr ''%d'')) [a] s =
        Some (s\<lparr> uart := uart s @ (if a <s 0 then cstr ''-'' else []) @ rev ds \<rparr>)"
      by (simp add: cprintf_def cstr_def Let_def conversion_def char_to_int_def)
    with ds(3,4) unat_abs [of a] show ?thesis by (intro exI [of _ "rev ds"]) simp
  qed
  have hex: "\<exists>ds. is_numeral 16 ds \<and> numeral_value 16 ds = unat a \<and>
         cprintf mem (Some (cstr ''%x'')) [a] s = Some (s\<lparr> uart := uart s @ ds \<rparr>) \<and>
         cprintf mem (Some (cstr ''%p'')) [a] s = Some (s\<lparr> uart := uart s @ ds \<rparr>)"
    if np: "\<not> panicked s"
  proof -
    from printint_digits_numeral [of 16 a] obtain ds where
      ds: "printint_digits a 16 [] = Some ds" "length ds \<le> 10"
        "is_numeral 16 (rev ds)" "numeral_value 16 (rev ds) = unat a" by auto
    have "printint a 16 0 s = Some (s\<lparr> uart := uart s @ rev ds \<rparr>)"
      using ds(1) np by (simp add: printint_def putcs_chars)
    then have "cprintf mem (Some (cstr ''%x'')) [a] s = Some (s\<lparr> uart := uart s @ rev ds \<rparr>)"
      "cprintf mem (Some (cstr ''%p'')) [a] s = Some (s\<lparr> uart := uart s @ rev ds \<rparr>)"
      by (simp_all add: cprintf_def cstr_def Let_def conversion_def char_to_int_def)
    with ds(3,4) show ?thesis by (intro exI [of _ "rev ds"]) simp
  qed
  from dec hex cprintf_examples show ?thesis by blast
qed

theorem cprintf_renders_witness:
  "\<not> panicked (consoleinit boot) \<and>
   cprintf hi_at (Some (cstr ''%d'')) [- 5] (consoleinit boot) =
     Some ((consoleinit boot)\<lparr> uart := cstr ''-5'' \<rparr>) \<and>
   is_numeral 10 (cstr ''5'') \<and> numeral_value 10 (cstr ''5'') = nat \<bar>sint (- 5 :: cint)\<bar> \<and>
   cprintf hi_at (Some (cstr ''%x'')) [255] (consoleinit boot) =
     Some ((consoleinit boot)\<lparr> uart := cstr ''ff'' \<rparr>) \<and>
   is_numeral 16 (cstr ''ff'') \<and> numeral_value 16 (cstr ''ff'') = unat (255 :: cint)"
proof -
  have np: "\<not> panicked (consoleinit boot)" by code_simp
  have u: "uart (consoleinit boot) = []" by code_simp
  have neg: "(- 5 :: cint) <s 0" by code_simp
  have d: "cprintf hi_at (Some (cstr ''%d'')) [- 5] (consoleinit boot) =
     Some ((consoleinit boot)\<lparr> uart := cstr ''-5'' \<rparr>)" by code_simp
  have x: "cprintf hi_at (Some (cstr ''%x'')) [255] (consoleinit boot) =
     Some ((consoleinit boot)\<lparr> uart := cstr ''ff'' \<rparr>)" by code_simp
  from cprintf_renders [of "consoleinit boot" "- 5" hi_at] np obtain ds where
    ds: "is_numeral 10 ds" "numeral_value 10 ds = nat \<bar>sint (- 5 :: cint)\<bar>"
      "cprintf hi_at (Some (cstr ''%d'')) [- 5] (consoleinit boot) =
        Some ((consoleinit boot)\<lparr> uart := uart (consoleinit boot) @
          (if (- 5 :: cint) <s 0 then cstr ''-'' else []) @ ds \<rparr>)"
    by blast
  from ds(3) d have "uart ((consoleinit boot)\<lparr> uart := uart (consoleinit boot) @
          (if (- 5 :: cint) <s 0 then cstr ''-'' else []) @ ds \<rparr>) =
        uart ((consoleinit boot)\<lparr> uart := cstr ''-5'' \<rparr>)" by simp
  then have "ds = cstr ''5''" using u neg by (simp add: cstr_def)
  with ds have dec: "is_numeral 10 (cstr ''5'')" "numeral_value 10 (cstr ''5'') = nat \<bar>sint (- 5 :: cint)\<bar>"
    by simp_all
  from cprintf_renders [of "consoleinit boot" 255 hi_at] np obtain hs where
    hs: "is_numeral 16 hs" "numeral_value 16 hs = unat (255 :: cint)"
      "cprintf hi_at (Some (cstr ''%x'')) [255] (consoleinit boot) =
        Some ((consoleinit boot)\<lparr> uart := uart (consoleinit boot) @ hs \<rparr>)"
    by blast
  from hs(3) x have "uart ((consoleinit boot)\<lparr> uart := uart (consoleinit boot) @ hs \<rparr>) =
        uart ((consoleinit boot)\<lparr> uart := cstr ''ff'' \<rparr>)" by simp
  then have "hs = cstr ''ff''" using u by simp
  with hs have "is_numeral 16 (cstr ''ff'')" "numeral_value 16 (cstr ''ff'') = unat (255 :: cint)"
    by simp_all
  with np d x dec show ?thesis by blast
qed

section \<open>One line at a time\<close>

lemma first_unread:
  assumes "good P s" "input_r s \<noteq> input_w s"
  shows "\<exists>c. P c \<and> input_buf s ! slot (input_r s) = stored c"
    and "committed s = input_buf s ! slot (input_r s) # committed (s\<lparr> input_r := input_r s + 1 \<rparr>)"
proof -
  from assms have wr: "input_w s \<noteq> input_r s" by simp
  from assms have "cursors_ok s" by (simp add: good_def)
  with wr have er: "input_e s \<noteq> input_r s" by (auto simp: cursors_ok_def)
  from span_Cons [OF er, of "input_buf s"] have "input_buf s ! slot (input_r s) \<in> set (unread s)"
    by (simp add: unread_def)
  with assms(1) show "\<exists>c. P c \<and> input_buf s ! slot (input_r s) = stored c"
    by (auto simp: good_def)
  from span_Cons [OF wr, of "input_buf s"]
  show "committed s = input_buf s ! slot (input_r s) # committed (s\<lparr> input_r := input_r s + 1 \<rparr>)"
    by (simp add: committed_def)
qed

lemma consoleread_loop_line:
  "good P s \<Longrightarrow> lflag s AND ICANON \<noteq> 0 \<Longrightarrow> list_all P (concat (map event_codes env)) \<Longrightarrow>
   consoleread_loop s n target dst env = Count s' dst' v \<Longrightarrow>
   \<exists>new. dst' = dst @ new \<and> 10 \<notin> set (butlast new) \<and>
     (\<forall>b \<in> set new. \<exists>c. P c \<and> b = stored c) \<and>
     (input_r s' = input_r s + word_of_nat (length new) \<or>
      input_r s' = input_r s + word_of_nat (length new) + 1) \<and>
     (env = [] \<longrightarrow> (\<exists>rest. committed s = new @ rest))"
proof (induction s n target dst env rule: consoleread_loop.induct)
  case (1 s n target dst env)
  note g = "1.prems"(1) and can = "1.prems"(2) and l = "1.prems"(3) and res = "1.prems"(4)
  show ?case
  proof (cases "0 <s n")
    case False
    with res have "dst' = dst @ [] \<and> s' = s" by (simp add: consoleread_loop_done)
    then show ?thesis by (intro exI [of _ "[]"]) simp
  next
    case pos: True
    note aw = await_good [OF g l]
    show ?thesis
    proof (cases "await s env")
      case (Killed t)
      with res pos show ?thesis by (simp add: consoleread_loop_killed)
    next
      case (Asleep t)
      with res pos show ?thesis by (simp add: consoleread_loop_asleep)
    next
      case (Ready t env')
      with aw have gt: "good P t" and lt: "list_all P (concat (map event_codes env'))"
        and ne: "input_r t \<noteq> input_w t" by simp_all
      from await_Ready_frame [OF Ready] have fr: "input_r t = input_r s" "cons_termios t = cons_termios s"
        "env = [] \<longrightarrow> t = s \<and> env' = []" by simp_all
      from can fr(2) have cant: "lflag t AND ICANON \<noteq> 0" by (simp add: lflag_def)
      define b where "b = input_buf t ! slot (input_r t)"
      define t1 where "t1 = t\<lparr> input_r := input_r t + 1 \<rparr>"
      note fu = first_unread [OF gt ne, folded b_def t1_def]
      consider (eof) "b = 4" | (nl) "b = 10" | (more) "b \<noteq> 4" "b \<noteq> 10" by blast
      then show ?thesis
      proof cases
        case eof
        with res consoleread_loop_eof [OF pos Ready _ cant, of target dst]
        have "dst' = dst @ []" "s' = (if n < target then t else t1)" by (simp_all add: b_def t1_def)
        with fr(1) show ?thesis by (intro exI [of _ "[]"]) (simp add: t1_def)
      next
        case nl
        with res consoleread_loop_newline [OF pos Ready _ cant, of target dst]
        have "dst' = dst @ [10]" "s' = t1" by (simp_all add: b_def t1_def)
        moreover have "env = [] \<longrightarrow> (\<exists>rest. committed s = [10] @ rest)"
          using fr(3) fu(2) nl by auto
        ultimately show ?thesis using fr(1) fu(1) nl
          by (intro exI [of _ "[10]"]) (simp add: t1_def)
      next
        case more
        then have m: "\<not> (b = 4 \<and> lflag t AND ICANON \<noteq> 0)" "\<not> (b = 10 \<and> lflag t AND ICANON \<noteq> 0)"
          by simp_all
        from res consoleread_loop_next [OF pos Ready b_def m, of target dst]
        have r1: "consoleread_loop t1 (n - 1) target
                    (dst @ [int_to_char (char_to_int (input_buf t ! slot (input_r t)))]) env' =
                  Count s' dst' v" by (simp add: t1_def b_def)
        have g1: "good P t1" unfolding t1_def using gt ne by (rule good_pop)
        have can1: "lflag t1 AND ICANON \<noteq> 0" using cant by (simp add: t1_def)
        from "1.IH" [OF pos Ready refl t1_def _ _ g1 can1 lt r1] m
        obtain new where new: "dst' = (dst @ [b]) @ new" "10 \<notin> set (butlast new)"
          "\<forall>x \<in> set new. \<exists>c. P c \<and> x = stored c"
          "input_r s' = input_r t1 + word_of_nat (length new) \<or>
           input_r s' = input_r t1 + word_of_nat (length new) + 1"
          "env' = [] \<longrightarrow> (\<exists>rest. committed t1 = new @ rest)"
          by (auto simp: b_def t1_def)
        have "dst' = dst @ (b # new)" using new(1) by simp
        moreover have "10 \<notin> set (butlast (b # new))" using new(2) more by simp
        moreover have "\<forall>x \<in> set (b # new). \<exists>c. P c \<and> x = stored c" using new(3) fu(1) by simp
        moreover have "input_r s' = input_r s + word_of_nat (length (b # new)) \<or>
           input_r s' = input_r s + word_of_nat (length (b # new)) + 1"
          using new(4) fr(1) by (simp add: t1_def ac_simps)
        moreover have "env = [] \<longrightarrow> (\<exists>rest. committed s = (b # new) @ rest)"
          using new(5) fr(3) fu(2) by auto
        ultimately show ?thesis by blast
      qed
    qed
  qed
qed

text \<open>
  C3. In canonical mode, from any reachable state and whatever interrupts arrive while the
  call sleeps, the bytes that one call of \<open>consoleread\<close> returns hold no line terminator
  before the last byte: delivery stops right after the first one. Each byte returned is
  the byte that \<open>consoleintr\<close> stored for one of the raw codes fed so far (those that
  satisfy \<open>P\<close>), and the read cursor moves by one for each byte returned (and by one
  more when the call consumes an EOF code), so no stored byte is delivered twice. When
  the call does not sleep, what it returns is a prefix of the committed bytes, in order.
\<close>

theorem read_at_most_one_line:
  assumes "reachable P s" and "lflag s AND ICANON \<noteq> 0"
    and "list_all P (concat (map event_codes env))"
    and "consoleread n env s = Count s' dst v"
  shows "10 \<notin> set (butlast dst) \<and>
         (\<forall>b \<in> set dst. \<exists>c. P c \<and> b = stored c) \<and>
         (input_r s' = input_r s + word_of_nat (length dst) \<or>
          input_r s' = input_r s + word_of_nat (length dst) + 1) \<and>
         (env = [] \<longrightarrow> (\<exists>rest. committed s = dst @ rest))"
  using consoleread_loop_line [OF reachable_good [OF assms(1)] assms(2,3), of n n "[]" s' dst v]
    assms(4)
  by (auto simp: consoleread_def)

lemma after_two_lines_pushed:
  "consoleintr [chr CHR ''a'', chr CHR ''b'', chr CHR 0x0D, chr CHR ''c'', chr CHR ''d'', chr CHR 0x0D]
     (consoleinit boot) = Some after_two_lines"
  by code_simp

theorem read_at_most_one_line_witness:
  "reachable (\<lambda>c. c < 0x100) after_two_lines \<and> lflag after_two_lines AND ICANON \<noteq> 0 \<and>
   consoleread 100 [] after_two_lines =
     Count (after_two_lines\<lparr> input_r := 3 \<rparr>) (cstr ''ab'' @ [10]) 3 \<and>
   10 \<notin> set (butlast (cstr ''ab'' @ [10])) \<and>
   (\<exists>rest. committed after_two_lines = (cstr ''ab'' @ [10]) @ rest) \<and>
   list_all (\<lambda>c. c < 0x100) (concat (map event_codes [Intr [chr CHR ''e'', chr CHR 0x0D]])) \<and>
   consoleread 100 [Intr [chr CHR ''e'', chr CHR 0x0D]] (after_two_lines\<lparr> input_r := 6 \<rparr>) =
     Count (after_two_lines\<lparr> input_r := 8, input_w := 8, input_e := 8,
        input_buf := (input_buf after_two_lines)[6 := of_char CHR ''e'', 7 := 10],
        uart := uart after_two_lines @ cstr ''e'' @ [10], wakeups := 3 \<rparr>) (cstr ''e'' @ [10]) 2 \<and>
   10 \<notin> set (butlast (cstr ''e'' @ [10]))"
proof -
  let ?P = "\<lambda>c :: cint. c < 0x100"
  have l: "list_all ?P [chr CHR ''a'', chr CHR ''b'', chr CHR 0x0D, chr CHR ''c'', chr CHR ''d'', chr CHR 0x0D]"
    by (simp add: chr_def)
  have r: "reachable ?P after_two_lines"
    by (rule reachable.by_intr [OF reachable.by_init [OF reachable.at_boot] l after_two_lines_pushed])
  have can: "lflag after_two_lines AND ICANON \<noteq> 0" by code_simp
  have e0: "list_all ?P (concat (map event_codes []))" by simp
  have rd: "consoleread 100 [] after_two_lines =
     Count (after_two_lines\<lparr> input_r := 3 \<rparr>) (cstr ''ab'' @ [10]) 3" by code_simp
  note t1 = read_at_most_one_line [OF r can e0 rd]
  have r6: "reachable ?P (after_two_lines\<lparr> input_r := 6 \<rparr>)"
  proof -
    have "final (consoleread 100 [] (after_two_lines\<lparr> input_r := 3 \<rparr>)) =
          after_two_lines\<lparr> input_r := 6 \<rparr>" by code_simp
    moreover have "reachable ?P (after_two_lines\<lparr> input_r := 3 \<rparr>)"
      using reachable.by_read [OF r e0, of 100] rd by simp
    ultimately show ?thesis using reachable.by_read [OF _ e0, of "after_two_lines\<lparr> input_r := 3 \<rparr>" 100]
      by simp
  qed
  have can6: "lflag (after_two_lines\<lparr> input_r := 6 \<rparr>) AND ICANON \<noteq> 0" by code_simp
  have e1: "list_all ?P (concat (map event_codes [Intr [chr CHR ''e'', chr CHR 0x0D]]))"
    by (simp add: chr_def)
  have rd6: "consoleread 100 [Intr [chr CHR ''e'', chr CHR 0x0D]] (after_two_lines\<lparr> input_r := 6 \<rparr>) =
     Count (after_two_lines\<lparr> input_r := 8, input_w := 8, input_e := 8,
        input_buf := (input_buf after_two_lines)[6 := of_char CHR ''e'', 7 := 10],
        uart := uart after_two_lines @ cstr ''e'' @ [10], wakeups := 3 \<rparr>) (cstr ''e'' @ [10]) 2"
    by code_simp
  note t2 = read_at_most_one_line [OF r6 can6 e1 rd6]
  from t1 t2 r can rd e1 rd6 show ?thesis by blast
qed

end
